theory Spec2Isabelle
  imports Main
begin

section \<open>Python runtime errors\<close>

text \<open>
  The exceptions the modelled functions can raise.  A function that may raise returns
  \<open>py_error + 'a\<close>, with \<open>Inl\<close> for the exception.
\<close>

datatype py_error = IndexError | KeyError | AttributeError | TypeError | ValueError

section \<open>Block partitions (\<open>createBlock\<close>, \<open>cutBlocks\<close>, \<open>mergeBlocks\<close>)\<close>

text \<open>
  A block partition is a Python list of ints.  \<open>createBlock(n)\<close> is \<open>[n]\<close> when
  \<open>n > 0\<close> and \<open>[]\<close> otherwise.
\<close>

definition createBlock :: "int \<Rightarrow> int list" where
  "createBlock n = (if n > 0 then [n] else [])"

text \<open>
  \<open>cutBlocks(i, blocks)\<close>: the \<open>for b in blocks\<close> loop with its three accumulators
  \<open>pre\<close>, \<open>post\<close> and \<open>nlines\<close>.
\<close>

fun cutBlocks_loop :: "int \<Rightarrow> int list \<Rightarrow> int list \<Rightarrow> int list \<Rightarrow> int \<Rightarrow> int list \<times> int list" where
  "cutBlocks_loop i [] pre post nlines = (pre, post)"
| "cutBlocks_loop i (b # bs) pre post nlines =
     (if nlines \<ge> i then cutBlocks_loop i bs pre (post @ [b]) (nlines + b)
      else if nlines + b \<le> i then cutBlocks_loop i bs (pre @ [b]) post (nlines + b)
      else (let n = i - nlines
            in cutBlocks_loop i bs (pre @ [n]) (post @ [b - n]) (nlines + b)))"

definition cutBlocks :: "int \<Rightarrow> int list \<Rightarrow> int list \<times> int list" where
  "cutBlocks i blocks = cutBlocks_loop i blocks [] [] 0"

text \<open>
  \<open>mergeBlocks(leftblocks, rightblocks)\<close>: the \<open>while len(leftblocks) > 0\<close> loop on
  copies of the two lists.  Reading \<open>rightblocks[0]\<close> on an empty list raises
  \<open>IndexError\<close>.
\<close>

function mergeBlocks_loop :: "int list \<Rightarrow> int list \<Rightarrow> int list \<Rightarrow> py_error + int list" where
  "mergeBlocks_loop [] rightblocks b = Inr b"
| "mergeBlocks_loop (nleft # ls) [] b = Inl IndexError"
| "mergeBlocks_loop (nleft # ls) (nright # rs) b =
     (let n = min nleft nright
      in mergeBlocks_loop (if n < nleft then (nleft - n) # ls else ls)
                          (if n < nright then (nright - n) # rs else rs)
                          (b @ [n]))"
  by pat_completeness auto
termination
  by (relation "measure (\<lambda>(l, r, b). length l + length r)") (auto simp: min_def)

definition mergeBlocks :: "int list \<Rightarrow> int list \<Rightarrow> py_error + int list" where
  "mergeBlocks leftblocks rightblocks = mergeBlocks_loop leftblocks rightblocks []"

text \<open>
  The cut points of a partition are its proper prefix sums: the running totals after
  every block but the last.
\<close>

fun psums :: "int \<Rightarrow> int list \<Rightarrow> int list" where
  "psums acc [] = []"
| "psums acc (x # xs) = (acc + x) # psums (acc + x) xs"

definition cut_points :: "int list \<Rightarrow> int set" where
  "cut_points blocks = set (psums 0 (butlast blocks))"

text \<open>
  A block straddles position \<open>i\<close> when \<open>i\<close> lies strictly inside it.  Re-merging
  the block at the cut point sums the last entry of \<open>pre\<close> and the first entry of
  \<open>post\<close> back into one block.
\<close>

definition straddles :: "int \<Rightarrow> int list \<Rightarrow> bool" where
  "straddles i blocks =
     list_ex (\<lambda>k. sum_list (take k blocks) < i \<and> i < sum_list (take (Suc k) blocks))
       [0..<length blocks]"

definition rejoin :: "int list \<Rightarrow> int list \<Rightarrow> int list" where
  "rejoin pre post = butlast pre @ [last pre + hd post] @ tl post"

section \<open>Removing rows that are spacers in every pane (\<open>removeNullLines\<close>)\<close>

text \<open>
  A pane's rows are a Python list whose entries are line objects or \<open>None\<close> (a spacer):
  \<open>'a option list\<close>.  \<open>del xs[i]\<close> removes the entry at index \<open>i\<close>.
\<close>

definition list_del :: "nat \<Rightarrow> 'a list \<Rightarrow> 'a list" where
  "list_del i xs = take i xs @ drop (Suc i) xs"

text \<open>
  The \<open>for lines in lines_set: if lines[i] is not None: ... break / else: ...\<close>
  scan: \<open>Inr False\<close> when some sequence holds a line at row \<open>i\<close> (the \<open>break\<close>),
  \<open>Inr True\<close> when the loop runs to its \<open>else\<close> clause, and \<open>IndexError\<close> when a
  sequence read before that is too short.
\<close>

fun all_null_at :: "'a option list list \<Rightarrow> nat \<Rightarrow> py_error + bool" where
  "all_null_at [] i = Inr True"
| "all_null_at (lines # rest) i =
     (if i < length lines
      then (if lines ! i \<noteq> None then Inr False else all_null_at rest i)
      else Inl IndexError)"

text \<open>
  The inner loop \<open>while i < bn + blocks[bi]\<close>; \<open>b\<close> is the current value of
  \<open>blocks[bi]\<close>.  It returns the new \<open>i\<close>, the new \<open>blocks[bi]\<close> and the new sequences.
\<close>

function removeNullLines_rows ::
  "int \<Rightarrow> nat \<Rightarrow> int \<Rightarrow> 'a option list list \<Rightarrow> py_error + (nat \<times> int \<times> 'a option list list)" where
  "removeNullLines_rows bn i b lines_set =
     (if int i < bn + b then
        (case all_null_at lines_set i of
           Inl e \<Rightarrow> Inl e
         | Inr nul \<Rightarrow>
             (if nul then removeNullLines_rows bn i (b - 1) (map (list_del i) lines_set)
              else removeNullLines_rows bn (i + 1) b lines_set))
      else Inr (i, b, lines_set))"
  by pat_completeness auto
termination
  by (relation "measure (\<lambda>(bn, i, b, ls). nat (bn + b - int i))") auto

declare removeNullLines_rows.simps [simp del]

text \<open>The outer loop \<open>while bi < len(blocks)\<close>.\<close>

function removeNullLines_loop ::
  "nat \<Rightarrow> int \<Rightarrow> nat \<Rightarrow> int list \<Rightarrow> 'a option list list \<Rightarrow> py_error + (int list \<times> 'a option list list)" where
  "removeNullLines_loop bi bn i blocks lines_set =
     (if bi < length blocks then
        (case removeNullLines_rows bn i (blocks ! bi) lines_set of
           Inl e \<Rightarrow> Inl e
         | Inr (i', b', lines_set') \<Rightarrow>
             (if b' = 0
              then removeNullLines_loop bi bn i' (list_del bi (blocks[bi := b'])) lines_set'
              else removeNullLines_loop (bi + 1) (bn + b') i' (blocks[bi := b']) lines_set'))
      else Inr (blocks, lines_set))"
  by pat_completeness auto
termination
  by (relation "measure (\<lambda>(bi, bn, i, blocks, ls). length blocks - bi)")
     (auto simp: list_del_def)

declare removeNullLines_loop.simps [simp del]

definition removeNullLines ::
  "int list \<Rightarrow> 'a option list list \<Rightarrow> py_error + (int list \<times> 'a option list list)" where
  "removeNullLines blocks lines_set = removeNullLines_loop 0 0 0 blocks lines_set"

text \<open>
  What the result is compared with: row \<open>r\<close> is a null row when every sequence holds
  \<open>None\<close> there; \<open>kept_rows\<close> lists the other rows of the first \<open>n\<close>; and
  \<open>shrunk_blocks\<close> takes from every block the number of null rows it owns, dropping a
  block that reaches zero.
\<close>

definition null_row :: "'a option list list \<Rightarrow> nat \<Rightarrow> bool" where
  "null_row lines_set r = list_all (\<lambda>lines. lines ! r = None) lines_set"

definition kept_rows :: "'a option list list \<Rightarrow> nat \<Rightarrow> nat list" where
  "kept_rows lines_set n = filter (\<lambda>r. \<not> null_row lines_set r) [0..<n]"

fun shrunk_blocks :: "(nat \<Rightarrow> bool) \<Rightarrow> nat \<Rightarrow> int list \<Rightarrow> int list" where
  "shrunk_blocks nul off [] = []"
| "shrunk_blocks nul off (b # bs) =
     (let b' = b - int (length (filter nul [off..<off + nat b]))
      in (if b' = 0 then [] else [b']) @ shrunk_blocks nul (off + nat b) bs)"

text \<open>
  The state of a sequence after the loop has passed the first \<open>p\<close> original rows: the
  kept ones among them, then the untouched rest.
\<close>

definition squeezed :: "'a option list list \<Rightarrow> nat \<Rightarrow> 'a option list \<Rightarrow> 'a option list" where
  "squeezed ls0 p l = map (nth l) (kept_rows ls0 p) @ drop p l"

section \<open>The sequence matcher (\<open>patience_diff\<close>)\<close>

subsection \<open>Python lists and dictionaries\<close>

text \<open>
  \<open>xs[i]\<close> with Python's negative indices and its \<open>IndexError\<close>; the slice
  \<open>xs[i:j]\<close>, whose bounds count from the end when negative and are clamped to the list;
  \<open>xs.insert(i, x)\<close> for an index that is not negative.
\<close>

definition py_get :: "'a list \<Rightarrow> int \<Rightarrow> py_error + 'a" where
  "py_get xs i =
     (let n = int (length xs); j = (if i < 0 then i + n else i)
      in if 0 \<le> j \<and> j < n then Inr (xs ! nat j) else Inl IndexError)"

definition py_index :: "nat \<Rightarrow> int \<Rightarrow> nat" where
  "py_index n i = (if i < 0 then nat (max (i + int n) 0) else min (nat i) n)"

definition py_slice :: "'a list \<Rightarrow> int \<Rightarrow> int \<Rightarrow> 'a list" where
  "py_slice xs i j =
     (let lo = py_index (length xs) i; hi = py_index (length xs) j
      in take (hi - lo) (drop lo xs))"

definition list_insert :: "nat \<Rightarrow> 'a \<Rightarrow> 'a list \<Rightarrow> 'a list" where
  "list_insert i x xs = take i xs @ x # drop i xs"

text \<open>
  A \<open>dict\<close> is an association list in insertion order: assigning to a key that is present
  keeps its place, a new key goes to the end, and iteration follows the list.
\<close>

fun dict_set :: "('k \<times> 'v) list \<Rightarrow> 'k \<Rightarrow> 'v \<Rightarrow> ('k \<times> 'v) list" where
  "dict_set [] k v = [(k, v)]"
| "dict_set ((k', v') # d) k v =
     (if k' = k then (k, v) # d else (k', v') # dict_set d k v)"

subsection \<open>\<open>__patience_subsequence\<close>\<close>

text \<open>The two \<open>for i, s in enumerate(...)\<close> loops that build \<open>value_a\<close> and \<open>value_b\<close>.\<close>

fun unique_values :: "('k \<times> int) list \<Rightarrow> int \<Rightarrow> 'k list \<Rightarrow> ('k \<times> int) list" where
  "unique_values d i [] = d"
| "unique_values d i (s # ss) =
     unique_values (dict_set d s (if map_of d s \<noteq> None then - 1 else i)) (i + 1) ss"

text \<open>The binary search \<open>while start < end\<close> for the pile of \<open>v\<close>.\<close>

function bisect :: "int list \<Rightarrow> int \<Rightarrow> nat \<Rightarrow> nat \<Rightarrow> py_error + nat" where
  "bisect pile v start hi =
     (if start < hi then
        (let mid = (start + hi) div 2
         in if mid < length pile
            then (if v < pile ! mid then bisect pile v start mid
                  else bisect pile v (mid + 1) hi)
            else Inl IndexError)
      else Inr start)"
  by pat_completeness auto
termination
  by (relation "measure (\<lambda>(pile, v, start, hi). hi - start)") auto

declare bisect.simps [simp del]

text \<open>
  Laying down one card: the body of \<open>for s in b\<close> once \<open>v\<close> and \<open>vb\<close> are known not to be
  \<open>-1\<close>.  The state is \<open>(pile, pointers, atob)\<close>.
\<close>

definition patience_place ::
  "int \<Rightarrow> int \<Rightarrow> int list \<times> (int \<times> int) list \<times> (int \<times> int) list \<Rightarrow>
   py_error + int list \<times> (int \<times> int) list \<times> (int \<times> int) list" where
  "patience_place v vb st =
     (case st of (pile, pointers, atob) \<Rightarrow>
        (case (if length pile \<noteq> 0 \<and> v > last pile then Inr (length pile)
               else bisect pile v 0 (length pile)) of
           Inl e \<Rightarrow> Inl e
         | Inr start \<Rightarrow>
             (let pile' = (if start < length pile then pile[start := v] else pile @ [v])
              in if start \<noteq> 0
                 then (if start - 1 < length pile'
                       then Inr (pile', dict_set pointers v (pile' ! (start - 1)),
                                 dict_set atob v vb)
                       else Inl IndexError)
                 else Inr (pile', pointers, dict_set atob v vb))))"

fun patience_deal ::
  "('k \<times> int) list \<Rightarrow> ('k \<times> int) list \<Rightarrow> 'k list \<Rightarrow>
   int list \<times> (int \<times> int) list \<times> (int \<times> int) list \<Rightarrow>
   py_error + int list \<times> (int \<times> int) list \<times> (int \<times> int) list" where
  "patience_deal value_a value_b [] st = Inr st"
| "patience_deal value_a value_b (s # ss) st =
     (let v = (case map_of value_a s of None \<Rightarrow> - 1 | Some v \<Rightarrow> v)
      in if v \<noteq> - 1 then
           (case map_of value_b s of
              None \<Rightarrow> Inl KeyError
            | Some vb \<Rightarrow>
                if vb \<noteq> - 1
                then (case patience_place v vb st of
                        Inl e \<Rightarrow> Inl e
                      | Inr st' \<Rightarrow> patience_deal value_a value_b ss st')
                else patience_deal value_a value_b ss st)
         else patience_deal value_a value_b ss st)"

text \<open>
  \<open>while v in pointers: v = pointers[v]; append((v, atob[v]))\<close>.  Nothing in the loop
  itself bounds it, so not returning is the value \<open>None\<close>.
\<close>

partial_function (option) follow_pointers ::
  "(int \<times> int) list \<Rightarrow> (int \<times> int) list \<Rightarrow> int \<Rightarrow> (int \<times> int) list \<Rightarrow>
   (py_error + (int \<times> int) list) option" where
  "follow_pointers pointers atob v result =
     (case map_of pointers v of
        None \<Rightarrow> Some (Inr result)
      | Some v' \<Rightarrow>
          (case map_of atob v' of
             None \<Rightarrow> Some (Inl KeyError)
           | Some vb \<Rightarrow> follow_pointers pointers atob v' (result @ [(v', vb)])))"

declare follow_pointers.simps [code]

definition patience_subsequence ::
  "'k list \<Rightarrow> 'k list \<Rightarrow> (py_error + (int \<times> int) list) option" where
  "patience_subsequence a b =
     (let value_a = unique_values [] 0 a; value_b = unique_values [] 0 b
      in case patience_deal value_a value_b b ([], [], []) of
           Inl e \<Rightarrow> Some (Inl e)
         | Inr (pile, pointers, atob) \<Rightarrow>
             if pile \<noteq> [] then
               (case map_of atob (last pile) of
                  None \<Rightarrow> Some (Inl KeyError)
                | Some vb \<Rightarrow>
                    (case follow_pointers pointers atob (last pile) [(last pile, vb)] of
                       None \<Rightarrow> None
                     | Some (Inl e) \<Rightarrow> Some (Inl e)
                     | Some (Inr result) \<Rightarrow> Some (Inr (rev result))))
             else Some (Inr []))"

subsection \<open>\<open>__lcs_approx\<close>\<close>

text \<open>The loops that build \<open>count1\<close> and \<open>lookup\<close>.\<close>

fun count_elements :: "('k \<times> int) list \<Rightarrow> 'k list \<Rightarrow> ('k \<times> int) list" where
  "count_elements d [] = d"
| "count_elements d (s # ss) =
     count_elements (dict_set d s ((case map_of d s of None \<Rightarrow> 0 | Some c \<Rightarrow> c) + 1)) ss"

fun build_lookup :: "('k \<times> int list) list \<Rightarrow> int \<Rightarrow> 'k list \<Rightarrow> ('k \<times> int list) list" where
  "build_lookup d i [] = d"
| "build_lookup d i (s # ss) =
     build_lookup (case map_of d s of None \<Rightarrow> dict_set d s [i] | Some l \<Rightarrow> dict_set d s (l @ [i]))
       (i + 1) ss"

text \<open>The keys of \<open>popular\<close>.\<close>

definition popular_keys :: "'k list \<Rightarrow> 'k list \<Rightarrow> ('k \<times> int) list \<Rightarrow> ('k \<times> int list) list \<Rightarrow> 'k list" where
  "popular_keys a b count1 lookup =
     (if int (length a) > 200
      then map fst (filter (\<lambda>(k, v). 100 * v > int (length a)) count1) else []) @
     (if int (length b) > 200
      then map fst (filter (\<lambda>(k, v). 100 * int (length v) > int (length b)) lookup) else [])"

text \<open>
  \<open>if v >= max_length: ...\<close>, the bookkeeping of the longest match; the state is
  \<open>(matches, max_length, max_indices)\<close>.
\<close>

definition note_match ::
  "int \<Rightarrow> int \<Rightarrow> int \<Rightarrow> (int \<times> int) list \<times> int \<times> (int \<times> int) list \<Rightarrow>
   (int \<times> int) list \<times> int \<times> (int \<times> int) list" where
  "note_match ai bi v st =
     (case st of (matches, max_length, max_indices) \<Rightarrow>
        (let matches' = dict_set matches bi v
         in if v \<ge> max_length
            then (if v = max_length then (matches', max_length, max_indices @ [(ai, bi)])
                  else (matches', v, [(ai, bi)]))
            else (matches', max_length, max_indices)))"

text \<open>\<open>for bi in prev_matches\<close>, the branch of a popular element.\<close>

fun extend_matches ::
  "'k list \<Rightarrow> 'k \<Rightarrow> int \<Rightarrow> (int \<times> int) list \<Rightarrow>
   (int \<times> int) list \<times> int \<times> (int \<times> int) list \<Rightarrow>
   py_error + (int \<times> int) list \<times> int \<times> (int \<times> int) list" where
  "extend_matches b s ai [] st = Inr st"
| "extend_matches b s ai ((bi, pv) # rest) st =
     (if bi + 1 < int (length b)
      then (case py_get b (bi + 1) of
              Inl e \<Rightarrow> Inl e
            | Inr x \<Rightarrow>
                if x = s then extend_matches b s ai rest (note_match ai bi (pv + 1) st)
                else extend_matches b s ai rest st)
      else extend_matches b s ai rest st)"

text \<open>\<open>for bi in lookup[s]\<close>, the branch of any other element.\<close>

fun start_matches ::
  "(int \<times> int) list \<Rightarrow> int \<Rightarrow> int list \<Rightarrow>
   (int \<times> int) list \<times> int \<times> (int \<times> int) list \<Rightarrow>
   (int \<times> int) list \<times> int \<times> (int \<times> int) list" where
  "start_matches prev_matches ai [] st = st"
| "start_matches prev_matches ai (bi # rest) st =
     start_matches prev_matches ai rest
       (note_match ai bi ((case map_of prev_matches (bi - 1) of None \<Rightarrow> 0 | Some v \<Rightarrow> v) + 1) st)"

text \<open>\<open>for ai, s in enumerate(a)\<close>; the state is \<open>(prev_matches, max_length, max_indices)\<close>.\<close>

fun lcs_rows ::
  "'k list \<Rightarrow> ('k \<times> int list) list \<Rightarrow> 'k list \<Rightarrow> int \<Rightarrow> 'k list \<Rightarrow>
   (int \<times> int) list \<times> int \<times> (int \<times> int) list \<Rightarrow>
   py_error + (int \<times> int) list \<times> int \<times> (int \<times> int) list" where
  "lcs_rows b lookup popular ai [] st = Inr st"
| "lcs_rows b lookup popular ai (s # ss) st =
     (case st of (prev_matches, max_length, max_indices) \<Rightarrow>
        (case map_of lookup s of
           None \<Rightarrow> lcs_rows b lookup popular (ai + 1) ss ([], max_length, max_indices)
         | Some bis \<Rightarrow>
             if s \<in> set popular
             then (case extend_matches b s ai prev_matches ([], max_length, max_indices) of
                     Inl e \<Rightarrow> Inl e
                   | Inr st' \<Rightarrow> lcs_rows b lookup popular (ai + 1) ss st')
             else lcs_rows b lookup popular (ai + 1) ss
                    (start_matches prev_matches ai bis ([], max_length, max_indices))))"

text \<open>\<open>while ai and bi and a[ai - 1] == b[bi - 1]\<close>.\<close>

function extend_back :: "'k list \<Rightarrow> 'k list \<Rightarrow> int \<Rightarrow> int \<Rightarrow> int \<Rightarrow> py_error + int \<times> int \<times> int" where
  "extend_back a b ai bi n =
     (if ai \<noteq> 0 \<and> bi \<noteq> 0 then
        (case py_get a (ai - 1) of
           Inl e \<Rightarrow> Inl e
         | Inr x \<Rightarrow>
             (case py_get b (bi - 1) of
                Inl e \<Rightarrow> Inl e
              | Inr y \<Rightarrow>
                  if x = y then extend_back a b (ai - 1) (bi - 1) (n + 1)
                  else Inr (ai, bi, n)))
      else Inr (ai, bi, n))"
  by pat_completeness auto
termination
  by (relation "measure (\<lambda>(a, b, ai, bi, n). nat (ai + int (length a)))")
     (auto simp: py_get_def Let_def split: if_splits)

declare extend_back.simps [simp del]

text \<open>\<open>for ai, bi in max_indices\<close>; the state is \<open>(aidx, bidx, nidx)\<close>.\<close>

fun best_match ::
  "'k list \<Rightarrow> 'k list \<Rightarrow> int \<Rightarrow> (int \<times> int) list \<Rightarrow> int \<times> int \<times> int \<Rightarrow>
   py_error + int \<times> int \<times> int" where
  "best_match a b max_length [] st = Inr st"
| "best_match a b max_length ((ai, bi) # rest) st =
     (case extend_back a b (ai + (1 - max_length)) (bi + (1 - max_length)) max_length of
        Inl e \<Rightarrow> Inl e
      | Inr (ai', bi', n) \<Rightarrow>
          (case st of (aidx, bidx, nidx) \<Rightarrow>
             best_match a b max_length rest (if n > nidx then (ai', bi', n) else st)))"

text \<open>\<open>__lcs_approx\<close> returns a triple, or \<open>None\<close> by falling off its end.\<close>

definition lcs_approx :: "'k list \<Rightarrow> 'k list \<Rightarrow> py_error + (int \<times> int \<times> int) option" where
  "lcs_approx a b =
     (let count1 = count_elements [] a; lookup = build_lookup [] 0 b
      in if list_ex (\<lambda>(k, v). map_of count1 k \<noteq> None) lookup then
           (case lcs_rows b lookup (popular_keys a b count1 lookup) 0 a ([], 0, []) of
              Inl e \<Rightarrow> Inl e
            | Inr (prev_matches, max_length, max_indices) \<Rightarrow>
                if max_indices \<noteq> [] then
                  (case best_match a b max_length max_indices (0, 0, 0) of
                     Inl e \<Rightarrow> Inl e
                   | Inr r \<Rightarrow> Inr (Some r))
                else Inr None)
         else Inr None)"

subsection \<open>\<open>patience_diff\<close>\<close>

text \<open>
  The two inner loops of the patience branch:
  \<open>while start_a < idx_a and start_b < idx_b and a[idx_a - 1] == b[idx_b - 1]\<close> and
  \<open>while start_a < end_a and start_b < end_b and a[start_a] == b[start_b]\<close>.
\<close>

function extend_before ::
  "'k list \<Rightarrow> 'k list \<Rightarrow> int \<Rightarrow> int \<Rightarrow> int \<Rightarrow> int \<Rightarrow> py_error + int \<times> int" where
  "extend_before a b start_a start_b idx_a idx_b =
     (if start_a < idx_a \<and> start_b < idx_b then
        (case py_get a (idx_a - 1) of
           Inl e \<Rightarrow> Inl e
         | Inr x \<Rightarrow>
             (case py_get b (idx_b - 1) of
                Inl e \<Rightarrow> Inl e
              | Inr y \<Rightarrow>
                  if x = y then extend_before a b start_a start_b (idx_a - 1) (idx_b - 1)
                  else Inr (idx_a, idx_b)))
      else Inr (idx_a, idx_b))"
  by pat_completeness auto
termination
  by (relation "measure (\<lambda>(a, b, start_a, start_b, idx_a, idx_b). nat (idx_a - start_a))") auto

declare extend_before.simps [simp del]

function extend_after ::
  "'k list \<Rightarrow> 'k list \<Rightarrow> int \<Rightarrow> int \<Rightarrow> int \<Rightarrow> int \<Rightarrow> py_error + int \<times> int" where
  "extend_after a b end_a end_b start_a start_b =
     (if start_a < end_a \<and> start_b < end_b then
        (case py_get a start_a of
           Inl e \<Rightarrow> Inl e
         | Inr x \<Rightarrow>
             (case py_get b start_b of
                Inl e \<Rightarrow> Inl e
              | Inr y \<Rightarrow>
                  if x = y then extend_after a b end_a end_b (start_a + 1) (start_b + 1)
                  else Inr (start_a, start_b)))
      else Inr (start_a, start_b))"
  by pat_completeness auto
termination
  by (relation "measure (\<lambda>(a, b, end_a, end_b, start_a, start_b). nat (end_a - start_a))") auto

declare extend_after.simps [simp del]

text \<open>
  \<open>for pivot_a, pivot_b in pivots\<close>.  The state is
  \<open>(start_a, start_b, match_idx, blocks, matches)\<close>; \<open>blocks\<close> is the work list (a stack
  whose top is the end of the list) of segments \<open>(start_a, end_a, start_b, end_b, match_idx)\<close>.
\<close>

fun patience_pivots ::
  "'k list \<Rightarrow> 'k list \<Rightarrow> int \<Rightarrow> int \<Rightarrow> int \<Rightarrow> int \<Rightarrow> (int \<times> int) list \<Rightarrow>
   int \<times> int \<times> nat \<times> (int \<times> int \<times> int \<times> int \<times> nat) list \<times> (int \<times> int \<times> int) list \<Rightarrow>
   py_error +
   int \<times> int \<times> nat \<times> (int \<times> int \<times> int \<times> int \<times> nat) list \<times> (int \<times> int \<times> int) list" where
  "patience_pivots a b offset_a offset_b end_a end_b [] st = Inr st"
| "patience_pivots a b offset_a offset_b end_a end_b ((pa, pb) # pivots) st =
     (case st of (start_a, start_b, match_idx, blocks, matches) \<Rightarrow>
        (let pivot_a = pa + offset_a; pivot_b = pb + offset_b
         in if start_a \<le> pivot_a then
              (case extend_before a b start_a start_b pivot_a pivot_b of
                 Inl e \<Rightarrow> Inl e
               | Inr (idx_a, idx_b) \<Rightarrow>
                   (case extend_after a b end_a end_b (pivot_a + 1) (pivot_b + 1) of
                      Inl e \<Rightarrow> Inl e
                    | Inr (start_a', start_b') \<Rightarrow>
                        patience_pivots a b offset_a offset_b end_a end_b pivots
                          (start_a', start_b', match_idx + 1,
                           (if start_a < idx_a \<and> start_b < idx_b
                            then blocks @ [(start_a, idx_a, start_b, idx_b, match_idx)]
                            else blocks),
                           list_insert match_idx (idx_a, idx_b, start_a' - idx_a) matches)))
            else patience_pivots a b offset_a offset_b end_a end_b pivots st))"

text \<open>
  The work-list loop \<open>while blocks\<close>.  Nothing in the loop itself bounds it, so not
  returning is the value \<open>None\<close>.
\<close>

partial_function (option) patience_loop ::
  "'k list \<Rightarrow> 'k list \<Rightarrow> (int \<times> int \<times> int \<times> int \<times> nat) list \<Rightarrow> (int \<times> int \<times> int) list \<Rightarrow>
   (py_error + (int \<times> int \<times> int) list) option" where
  "patience_loop a b blocks matches =
     (if blocks = [] then Some (Inr matches)
      else
        (case last blocks of (start_a, end_a, start_b, end_b, match_idx) \<Rightarrow>
           (case patience_subsequence (py_slice a start_a end_a) (py_slice b start_b end_b) of
              None \<Rightarrow> None
            | Some (Inl e) \<Rightarrow> Some (Inl e)
            | Some (Inr pivots) \<Rightarrow>
                if pivots \<noteq> [] then
                  (case patience_pivots a b start_a start_b end_a end_b pivots
                          (start_a, start_b, match_idx, butlast blocks, matches) of
                     Inl e \<Rightarrow> Some (Inl e)
                   | Inr (start_a', start_b', match_idx', blocks', matches') \<Rightarrow>
                       patience_loop a b
                         (if start_a' < end_a \<and> start_b' < end_b
                          then blocks' @ [(start_a', end_a, start_b', end_b, match_idx')]
                          else blocks')
                         matches')
                else
                  (case lcs_approx (py_slice a start_a end_a) (py_slice b start_b end_b) of
                     Inl e \<Rightarrow> Some (Inl e)
                   | Inr None \<Rightarrow> patience_loop a b (butlast blocks) matches
                   | Inr (Some (ia, ib, n)) \<Rightarrow>
                       (let idx_a = ia + start_a; idx_b = ib + start_b;
                            blocks1 = (if start_a < idx_a \<and> start_b < idx_b
                                       then butlast blocks @ [(start_a, idx_a, start_b, idx_b, match_idx)]
                                       else butlast blocks);
                            matches' = list_insert match_idx (idx_a, idx_b, n) matches
                        in patience_loop a b
                             (if idx_a + n < end_a \<and> idx_b + n < end_b
                              then blocks1 @ [(idx_a + n, end_a, idx_b + n, end_b, match_idx + 1)]
                              else blocks1)
                             matches')))))"

declare patience_loop.simps [code]

text \<open>
  The scan \<open>while i < end_a and i < end_b and a[i] == b[i]\<close> from the beginning, and
  \<open>while start_a < end_a and start_b < end_b and a[end_a - 1] == b[end_b - 1]\<close> from
  the end.
\<close>

function match_prefix :: "'k list \<Rightarrow> 'k list \<Rightarrow> int \<Rightarrow> int \<Rightarrow> int \<Rightarrow> py_error + int" where
  "match_prefix a b end_a end_b i =
     (if i < end_a \<and> i < end_b then
        (case py_get a i of
           Inl e \<Rightarrow> Inl e
         | Inr x \<Rightarrow>
             (case py_get b i of
                Inl e \<Rightarrow> Inl e
              | Inr y \<Rightarrow> if x = y then match_prefix a b end_a end_b (i + 1) else Inr i))
      else Inr i)"
  by pat_completeness auto
termination
  by (relation "measure (\<lambda>(a, b, end_a, end_b, i). nat (end_a - i))") auto

declare match_prefix.simps [simp del]

function match_suffix :: "'k list \<Rightarrow> 'k list \<Rightarrow> int \<Rightarrow> int \<Rightarrow> int \<Rightarrow> int \<Rightarrow> py_error + int \<times> int" where
  "match_suffix a b start_a start_b end_a end_b =
     (if start_a < end_a \<and> start_b < end_b then
        (case py_get a (end_a - 1) of
           Inl e \<Rightarrow> Inl e
         | Inr x \<Rightarrow>
             (case py_get b (end_b - 1) of
                Inl e \<Rightarrow> Inl e
              | Inr y \<Rightarrow>
                  if x = y then match_suffix a b start_a start_b (end_a - 1) (end_b - 1)
                  else Inr (end_a, end_b)))
      else Inr (end_a, end_b))"
  by pat_completeness auto
termination
  by (relation "measure (\<lambda>(a, b, start_a, start_b, end_a, end_b). nat (end_a - start_a))") auto

declare match_suffix.simps [simp del]

text \<open>The part of \<open>patience_diff\<close> after the work-list loop.\<close>

definition patience_finish ::
  "'k list \<Rightarrow> 'k list \<Rightarrow> (int \<times> int \<times> int) list \<Rightarrow> py_error + (int \<times> int \<times> int) list" where
  "patience_finish a b matches =
     (let len_a = int (length a); len_b = int (length b);
          (end_a, end_b) = (if matches \<noteq> [] then (fst (hd matches), fst (snd (hd matches)))
                            else (len_a, len_b))
      in case match_prefix a b end_a end_b 0 of
           Inl e \<Rightarrow> Inl e
         | Inr i \<Rightarrow>
             (let matches1 = (if i \<noteq> 0 then (0, 0, i) # matches else matches);
                  (start_a, start_b) =
                    (if matches1 \<noteq> []
                     then (case last matches1 of (sa, sb, n) \<Rightarrow> (sa + n, sb + n))
                     else (0, 0))
              in case match_suffix a b start_a start_b len_a len_b of
                   Inl e \<Rightarrow> Inl e
                 | Inr (end_a', end_b') \<Rightarrow>
                     Inr ((if end_a' < len_a
                           then matches1 @ [(end_a', end_b', len_a - end_a')]
                           else matches1) @ [(len_a, len_b, 0)])))"

definition patience_diff :: "'k list \<Rightarrow> 'k list \<Rightarrow> (py_error + (int \<times> int \<times> int) list) option" where
  "patience_diff a b =
     (case (if length a \<noteq> 0 \<and> length b \<noteq> 0
            then patience_loop a b [(0, int (length a), 0, int (length b), 0)] []
            else Some (Inr [])) of
        None \<Rightarrow> None
      | Some (Inl e) \<Rightarrow> Some (Inl e)
      | Some (Inr matches) \<Rightarrow> Some (patience_finish a b matches))"

section \<open>Pairwise alignment (\<open>alignBlocks\<close>)\<close>

text \<open>
  The rows of a pane are references to \<open>Line\<close> objects or \<open>None\<close>; \<open>'l\<close> is the type of the
  references, so that equality on \<open>'l option\<close> is Python's \<open>is\<close>.  The comparison key of a
  line, \<open>self._alignmentHash(line)\<close>, depends on the preferences and on the line's text
  only; it is the parameter \<open>h\<close>.
\<close>

text \<open>The slice assignment \<open>s[i:i] = xs\<close>.\<close>

definition slice_insert :: "'a list \<Rightarrow> int \<Rightarrow> 'a list \<Rightarrow> 'a list" where
  "slice_insert s i xs = (let p = py_index (length s) i in take p s @ xs @ drop p s)"

text \<open>\<open>for block in patience_diff(t1, t2)\<close>: spacers go into \<open>s1\<close> or \<open>s2\<close>.\<close>

fun align_matches ::
  "(int \<times> int \<times> int) list \<Rightarrow> int \<Rightarrow> int \<Rightarrow> 'l option list \<Rightarrow> 'l option list \<Rightarrow>
   'l option list \<times> 'l option list" where
  "align_matches [] n1 n2 s1 s2 = (s1, s2)"
| "align_matches ((b0, b1, bl) # rest) n1 n2 s1 s2 =
     (let delta = (n1 + b0) - (n2 + b1)
      in if delta < 0
         then align_matches rest (n1 - delta) n2
                (slice_insert s1 (n1 + b0) (replicate (nat (- delta)) None)) s2
         else if delta > 0
         then align_matches rest n1 (n2 + delta) s1
                (slice_insert s2 (n2 + b1) (replicate (nat delta) None))
         else align_matches rest n1 n2 s1 s2)"

text \<open>
  Growing the block that owns row \<open>i\<close>: \<open>bi[j]\<close> and \<open>bn[j]\<close> are never written, so the
  search \<open>while bnj + blocksj[bij] < i\<close> (\<open>bn_j\<close>, \<open>bi_j\<close> here) starts from the first block every time.
\<close>

function find_block :: "int list \<Rightarrow> int \<Rightarrow> nat \<Rightarrow> int \<Rightarrow> py_error + nat" where
  "find_block blocksj bn_j bi_j i =
     (if bi_j < length blocksj
      then (if bn_j + blocksj ! bi_j < i
            then find_block blocksj (bn_j + blocksj ! bi_j) (bi_j + 1) i
            else Inr bi_j)
      else Inl IndexError)"
  by pat_completeness auto
termination
  by (relation "measure (\<lambda>(blocksj, bn_j, bi_j, i). length blocksj - bi_j)") auto

declare find_block.simps [simp del]

definition grow_block :: "int list \<Rightarrow> int \<Rightarrow> py_error + int list" where
  "grow_block blocksj i =
     (let bs = (if length blocksj = 0 then blocksj @ [0] else blocksj)
      in case find_block bs 0 0 i of
           Inl e \<Rightarrow> Inl e
         | Inr bi_j \<Rightarrow> Inr (bs[bi_j := bs ! bi_j + 1]))"

text \<open>\<open>if insert[j]: ...\<close> for one side: a spacer at row \<open>i\<close> of every sequence of the side.\<close>

definition insert_spacers ::
  "bool \<Rightarrow> nat \<Rightarrow> int list \<Rightarrow> 'l option list list \<Rightarrow> py_error + int list \<times> 'l option list list" where
  "insert_spacers ins i blocksj linesj =
     (if ins
      then (case grow_block blocksj (int i) of
              Inl e \<Rightarrow> Inl e
            | Inr bs \<Rightarrow> Inr (bs, map (list_insert i None) linesj))
      else Inr (blocksj, linesj))"

text \<open>
  The \<open>if insert == [False, False] and k < nmatch\<close> branch for row \<open>i\<close> and pair \<open>k\<close>: it
  returns \<open>insert[0]\<close>, \<open>insert[1]\<close> and the new \<open>k\<close>.  \<open>s1\<close> and \<open>s2\<close> are \<open>mlines\<close>,
  \<open>m0\<close> and \<open>m1\<close> are \<open>middle\<close>.
\<close>

definition row_decision ::
  "'l option list \<Rightarrow> 'l option list \<Rightarrow> 'l option list \<Rightarrow> 'l option list \<Rightarrow> nat \<Rightarrow> nat \<Rightarrow>
   py_error + bool \<times> bool \<times> nat" where
  "row_decision s1 s2 m0 m1 i k =
     (case py_get s1 (int k) of
        Inl e \<Rightarrow> Inl e
      | Inr e0 \<Rightarrow>
          (case py_get s2 (int k) of
             Inl e \<Rightarrow> Inl e
           | Inr e1 \<Rightarrow>
               (let accept = \<not> (m0 ! i \<noteq> e0 \<and> e0 \<noteq> None) \<and> \<not> (m1 ! i \<noteq> e1 \<and> e1 \<noteq> None)
                in if accept
                   then Inr (m0 ! i \<noteq> e0 \<and> e0 = None, m1 ! i \<noteq> e1 \<and> e1 = None, k + 1)
                   else Inr (m0 ! i \<noteq> None, m1 ! i \<noteq> None, k))))"

text \<open>
  The \<open>while True\<close> loop.  \<open>middle\<close> is \<open>(leftlines[-1], rightlines[0])\<close>: the very lists the
  spacers are inserted into.  Nothing in the loop itself bounds it, so not returning is
  the value \<open>None\<close>.
\<close>

partial_function (option) align_rows ::
  "'l option list \<Rightarrow> 'l option list \<Rightarrow> nat \<Rightarrow> nat \<Rightarrow> nat \<Rightarrow>
   int list \<times> 'l option list list \<times> int list \<times> 'l option list list \<Rightarrow>
   (py_error + int list \<times> 'l option list list \<times> int list \<times> 'l option list list) option" where
  "align_rows s1 s2 nmatch i k st =
     (case st of (leftblocks, leftlines, rightblocks, rightlines) \<Rightarrow>
        if leftlines = [] \<or> rightlines = [] then Some (Inl IndexError)
        else if i \<ge> length (last leftlines) \<and> i \<ge> length (hd rightlines) then Some (Inr st)
        else
          (case (if i < length (last leftlines) \<and> i < length (hd rightlines) \<and> k < nmatch
                 then row_decision s1 s2 (last leftlines) (hd rightlines) i k
                 else Inr (i \<ge> length (last leftlines), i \<ge> length (hd rightlines), k)) of
             Inl e \<Rightarrow> Some (Inl e)
           | Inr (ins0, ins1, k') \<Rightarrow>
               (case insert_spacers ins0 i leftblocks leftlines of
                  Inl e \<Rightarrow> Some (Inl e)
                | Inr (leftblocks', leftlines') \<Rightarrow>
                    (case insert_spacers ins1 i rightblocks rightlines of
                       Inl e \<Rightarrow> Some (Inl e)
                     | Inr (rightblocks', rightlines') \<Rightarrow>
                         align_rows s1 s2 nmatch (i + 1) k'
                           (leftblocks', leftlines', rightblocks', rightlines')))))"

declare align_rows.simps [code]

definition alignBlocks ::
  "('l \<Rightarrow> 'k) \<Rightarrow> int list \<Rightarrow> 'l option list list \<Rightarrow> int list \<Rightarrow> 'l option list list \<Rightarrow>
   (py_error + int list \<times> 'l option list list \<times> int list \<times> 'l option list list) option" where
  "alignBlocks h leftblocks leftlines rightblocks rightlines =
     (if leftlines = [] \<or> rightlines = [] then Some (Inl IndexError)
      else
        (let s1 = filter (\<lambda>x. x \<noteq> None) (last leftlines);
             s2 = filter (\<lambda>x. x \<noteq> None) (hd rightlines)
         in case patience_diff (map (\<lambda>x. h (the x)) s1) (map (\<lambda>x. h (the x)) s2) of
              None \<Rightarrow> None
            | Some (Inl e) \<Rightarrow> Some (Inl e)
            | Some (Inr ms) \<Rightarrow>
                (case align_matches ms 0 0 s1 s2 of (s1', s2') \<Rightarrow>
                   align_rows s1' s2' (length s1') 0 0
                     (leftblocks, leftlines, rightblocks, rightlines))))"

section \<open>The viewer state and its undo log\<close>

text \<open>
  \<open>FileDiffViewer.Line\<close>, \<open>FileDiffViewer.Pane\<close> and the fields of \<open>FileDiffViewer\<close> that
  the alignment and undo code reads or writes.  The rendering caches (\<open>compare_string\<close>,
  \<open>line_lengths\<close>, \<open>syntax_cache\<close>, \<open>diff_cache\<close>, \<open>diffmap_cache\<close>), the widgets and the
  emitted signals are left out: no branch of the modelled code depends on them.  Every
  pane owns its list of lines and every line object belongs to one row of one pane, so a
  pane is modelled by the value of its list.  Row and pane indices are natural numbers
  (every caller passes an index that is not negative); the cursor fields are Python ints.
  The viewer has one drawing area for every pane (\<open>self.dareas\<close>, filled by \<open>__init__\<close>
  together with \<open>self.panes\<close>), so \<open>self.dareas[f]\<close> raises \<open>IndexError\<close> exactly when the
  pane index \<open>f\<close> is out of range; what the widgets and the signal handlers do beyond
  that is not modelled.
\<close>

datatype edit_mode = LINE_MODE | CHAR_MODE | ALIGN_MODE

record line =
  line_number :: "int option"
  line_text :: "string option"
  is_modified :: bool
  modified_text :: "string option"

record pane =
  lines :: "line option list"
  format :: int
  max_line_number :: int
  num_edits :: int

text \<open>One constructor for each of the source's \<open>...Undo\<close> classes, holding its \<open>data\<close> tuple.\<close>

datatype undo_rec =
    SetFormatUndo nat int int
  | InstanceLineUndo nat nat bool
  | UpdateLineTextUndo nat nat bool "string option" bool "string option"
  | InsertNullUndo nat nat bool
  | InvalidateLineMatchingUndo int int int
  | AlignmentChangeUndo bool
  | UpdateBlocksUndo "int list" "int list"
  | ReplaceLinesUndo nat "line option list" "line option list" int int
  | EditModeUndo edit_mode int int int int int int
  | SwapPanesUndo nat nat

record viewer =
  panes :: "pane list"
  blocks :: "int list"
  undos :: "undo_rec list list"
  redos :: "undo_rec list list"
  undoblock :: "undo_rec list option"
  mode :: edit_mode
  current_pane :: int
  current_line :: int
  current_char :: int
  selection_line :: int
  selection_char :: int
  cursor_column :: int
  align_pane :: int
  align_line :: int

text \<open>
  \<open>Line()\<close>: the constructor with its default arguments.  The source's field \<open>text\<close> is
  \<open>line_text\<close> here.
\<close>

definition new_Line :: line where
  "new_Line = \<lparr>line_number = None, line_text = None, is_modified = False, modified_text = None\<rparr>"

text \<open>\<open>Line(line_number, text)\<close>, as \<open>replaceContents\<close> creates the lines of a loaded file.\<close>

definition Line_of :: "int \<Rightarrow> string \<Rightarrow> line" where
  "Line_of n t = \<lparr>line_number = Some n, line_text = Some t, is_modified = False, modified_text = None\<rparr>"

text \<open>\<open>Pane()\<close> and the fields \<open>FileDiffViewer.__init__(n, prefs)\<close> sets.\<close>

definition new_Pane :: pane where
  "new_Pane = \<lparr>lines = [], format = 0, max_line_number = 0, num_edits = 0\<rparr>"

definition new_viewer :: "nat \<Rightarrow> py_error + viewer" where
  "new_viewer n =
     (if n < 2 then Inl ValueError
      else Inr \<lparr>panes = replicate n new_Pane, blocks = [], undos = [], redos = [],
                undoblock = None, mode = LINE_MODE, current_pane = 1, current_line = 0,
                current_char = 0, selection_line = 0, selection_char = 0,
                cursor_column = - 1, align_pane = 0, align_line = 0\<rparr>)"

text \<open>\<open>getText\<close> of a line.\<close>

definition getText :: "line \<Rightarrow> string option" where
  "getText l = (if is_modified l then modified_text l else line_text l)"

subsection \<open>Opening and closing a transaction\<close>

definition openUndoBlock :: "viewer \<Rightarrow> viewer" where
  "openUndoBlock s = s\<lparr>undoblock := Some []\<rparr>"

text \<open>
  \<open>if self.undoblock is not None: self.addUndo(u)\<close>, the guard every primitive
  mutation starts with.
\<close>

definition note_undo :: "undo_rec \<Rightarrow> viewer \<Rightarrow> viewer" where
  "note_undo u s =
     (case undoblock s of None \<Rightarrow> s | Some ub \<Rightarrow> s\<lparr>undoblock := Some (ub @ [u])\<rparr>)"

text \<open>\<open>closeUndoBlock\<close>; \<open>len(None)\<close> raises \<open>TypeError\<close>.\<close>

definition closeUndoBlock :: "viewer \<Rightarrow> py_error + viewer" where
  "closeUndoBlock s =
     (case undoblock s of
        None \<Rightarrow> Inl TypeError
      | Some ub \<Rightarrow>
          Inr ((if length ub > 0 then s\<lparr>redos := [], undos := undos s @ [ub]\<rparr> else s)
                 \<lparr>undoblock := None\<rparr>))"

subsection \<open>The primitive mutations\<close>

text \<open>\<open>self.panes[f]\<close> updated by \<open>g\<close>, or \<open>IndexError\<close>.\<close>

definition with_pane :: "nat \<Rightarrow> (pane \<Rightarrow> py_error + pane) \<Rightarrow> viewer \<Rightarrow> py_error + viewer" where
  "with_pane f g s =
     (if f < length (panes s)
      then (case g (panes s ! f) of
              Inl e \<Rightarrow> Inl e
            | Inr p \<Rightarrow> Inr (s\<lparr>panes := (panes s)[f := p]\<rparr>))
      else Inl IndexError)"

definition setFormat :: "nat \<Rightarrow> int \<Rightarrow> viewer \<Rightarrow> py_error + viewer" where
  "setFormat f fmt s =
     (if f < length (panes s)
      then with_pane f (\<lambda>p. Inr (p\<lparr>format := fmt\<rparr>))
             (note_undo (SetFormatUndo f fmt (format (panes s ! f))) s)
      else Inl IndexError)"

definition instanceLine :: "nat \<Rightarrow> nat \<Rightarrow> bool \<Rightarrow> viewer \<Rightarrow> py_error + viewer" where
  "instanceLine f i reverse s =
     with_pane f
       (\<lambda>p. if i < length (lines p)
             then Inr (p\<lparr>lines := (lines p)[i := (if reverse then None else Some new_Line)]\<rparr>)
             else Inl IndexError)
       (note_undo (InstanceLineUndo f i reverse) s)"

definition updateLineText :: "nat \<Rightarrow> nat \<Rightarrow> bool \<Rightarrow> string option \<Rightarrow> viewer \<Rightarrow> py_error + viewer" where
  "updateLineText f i is_mod txt s =
     (if f < length (panes s) \<and> i < length (lines (panes s ! f))
      then (case lines (panes s ! f) ! i of
              None \<Rightarrow> Inl AttributeError
            | Some l \<Rightarrow>
                with_pane f
                  (\<lambda>p. Inr (p\<lparr>num_edits :=
                               (if is_mod \<and> \<not> is_modified l then num_edits p + 1
                                else if \<not> is_mod \<and> is_modified l then num_edits p - 1
                                else num_edits p),
                             lines := (lines p)[i := Some (l\<lparr>is_modified := is_mod,
                                                             modified_text := txt\<rparr>)]\<rparr>))
                  (note_undo (UpdateLineTextUndo f i (is_modified l) (modified_text l) is_mod txt) s))
      else Inl IndexError)"

definition insertNull :: "nat \<Rightarrow> nat \<Rightarrow> bool \<Rightarrow> viewer \<Rightarrow> py_error + viewer" where
  "insertNull f i reverse s =
     with_pane f
       (\<lambda>p. if reverse
             then (if i < length (lines p) then Inr (p\<lparr>lines := list_del i (lines p)\<rparr>)
                   else Inl IndexError)
             else Inr (p\<lparr>lines := take i (lines p) @ None # drop i (lines p)\<rparr>))
       (note_undo (InsertNullUndo f i reverse) s)"

definition invalidateLineMatching :: "int \<Rightarrow> int \<Rightarrow> int \<Rightarrow> viewer \<Rightarrow> py_error + viewer" where
  "invalidateLineMatching i n new_n s = Inr (note_undo (InvalidateLineMatchingUndo i n new_n) s)"

definition alignmentChange :: "bool \<Rightarrow> viewer \<Rightarrow> py_error + viewer" where
  "alignmentChange finished s = Inr (note_undo (AlignmentChangeUndo finished) s)"

definition updateBlocks :: "int list \<Rightarrow> viewer \<Rightarrow> py_error + viewer" where
  "updateBlocks bs s = Inr ((note_undo (UpdateBlocksUndo (blocks s) bs) s)\<lparr>blocks := bs\<rparr>)"

definition count_edits :: "line option list \<Rightarrow> int" where
  "count_edits ls = int (length (filter (\<lambda>x. case x of None \<Rightarrow> False | Some l \<Rightarrow> is_modified l) ls))"

definition replaceLines ::
  "nat \<Rightarrow> line option list \<Rightarrow> line option list \<Rightarrow> int \<Rightarrow> int \<Rightarrow> viewer \<Rightarrow> py_error + viewer" where
  "replaceLines f old_lines new_lines max_num new_max_num s =
     with_pane f
       (\<lambda>p. Inr (p\<lparr>lines := new_lines, num_edits := count_edits new_lines,
                    max_line_number := new_max_num\<rparr>))
       (note_undo (ReplaceLinesUndo f old_lines new_lines max_num new_max_num) s)"

definition recordEditMode :: "viewer \<Rightarrow> py_error + viewer" where
  "recordEditMode s =
     Inr (note_undo (EditModeUndo (mode s) (current_pane s) (current_line s) (current_char s)
                       (selection_line s) (selection_char s) (cursor_column s)) s)"

text \<open>
  \<open>self.dareas[f]\<close> for a Python int \<open>f\<close>: an index from \<open>-len\<close> to \<open>len - 1\<close> is in range.
\<close>

definition darea_at :: "int \<Rightarrow> viewer \<Rightarrow> bool" where
  "darea_at f s \<longleftrightarrow> - int (length (panes s)) \<le> f \<and> f < int (length (panes s))"

text \<open>
  \<open>getLineText(f, i)\<close> (through \<open>getLine\<close>) for Python ints: \<open>None\<close> for a spacer and for a
  row past the end, \<open>IndexError\<close> for a pane or a negative row out of range.
\<close>

definition getLineText :: "int \<Rightarrow> int \<Rightarrow> viewer \<Rightarrow> py_error + string option" where
  "getLineText f i s =
     (case py_get (map lines (panes s)) f of
        Inl e \<Rightarrow> Inl e
      | Inr ls \<Rightarrow>
          if i < int (length ls)
          then (case py_get ls i of
                  Inl e \<Rightarrow> Inl e
                | Inr None \<Rightarrow> Inr None
                | Inr (Some l) \<Rightarrow> Inr (getText l))
          else Inr None)"

text \<open>
  \<open>_get_cursor_x_offset\<close>, as far as it can raise: with the cursor past column 0 it
  slices the text of the cursor's row, and \<open>None[:j]\<close> raises \<open>TypeError\<close>.  The width it
  returns only moves the scroll bars.
\<close>

definition cursor_x_offset :: "viewer \<Rightarrow> py_error + unit" where
  "cursor_x_offset s =
     (if current_char s > 0
      then (case getLineText (current_pane s) (current_line s) s of
              Inl e \<Rightarrow> Inl e
            | Inr None \<Rightarrow> Inl TypeError
            | Inr (Some t) \<Rightarrow> Inr ())
      else Inr ())"

text \<open>
  \<open>setCurrentLine(f, i, selection)\<close>: the pane and the row are clamped, then
  \<open>_queue_draw_lines(old_f, ...)\<close> reads \<open>self.dareas[old_f]\<close> for the pane the cursor was
  in.
\<close>

definition setCurrentLine :: "int \<Rightarrow> int \<Rightarrow> int option \<Rightarrow> viewer \<Rightarrow> py_error + viewer" where
  "setCurrentLine f i selection s =
     (let f' = max (min f (int (length (panes s)) - 1)) 0
      in if nat f' < length (panes s)
         then (let i' = max (min i (int (length (lines (panes s ! nat f'))))) 0
               in if darea_at (current_pane s) s
                  then Inr (s\<lparr>current_pane := f', current_line := i',
                              selection_line := (case selection of None \<Rightarrow> i' | Some sl \<Rightarrow> sl)\<rparr>)
                  else Inl IndexError)
         else Inl IndexError)"

text \<open>
  \<open>setCurrentChar(i, j)\<close> and \<open>setCurrentChar(i, j, True)\<close>: \<open>sj\<close> is \<open>None\<close>, so the
  selection is not extended.  After the fields are set, \<open>_cursor_position_changed(True)\<close>
  (in \<open>CHAR_MODE\<close>: \<open>_get_cursor_x_offset\<close>, then \<open>self.dareas[self.current_pane]\<close>),
  \<open>_queue_draw_lines(f, ...)\<close> and \<open>_ensure_cursor_is_visible\<close> (\<open>_get_cursor_x_offset\<close>
  again) run.
\<close>

definition setCurrentChar :: "int \<Rightarrow> int \<Rightarrow> viewer \<Rightarrow> py_error + viewer" where
  "setCurrentChar i j s =
     (let s1 = s\<lparr>cursor_column := - 1, current_line := i, current_char := j,
                 selection_line := i, selection_char := j\<rparr>
      in case (if mode s1 = CHAR_MODE then cursor_x_offset s1 else Inr ()) of
           Inl e \<Rightarrow> Inl e
         | Inr u \<Rightarrow>
             if darea_at (current_pane s1) s1
             then (case cursor_x_offset s1 of Inl e \<Rightarrow> Inl e | Inr u' \<Rightarrow> Inr s1)
             else Inl IndexError)"

text \<open>
  \<open>setEditMode\<close>: the fields are stored as given, the cursor is set in the new mode, and
  at the end \<open>self.dareas[old_f].queue_draw()\<close> reads the drawing area of the pane the
  cursor was in before.
\<close>

definition setEditMode ::
  "edit_mode \<Rightarrow> int \<Rightarrow> int \<Rightarrow> int \<Rightarrow> int \<Rightarrow> int \<Rightarrow> int \<Rightarrow> viewer \<Rightarrow> py_error + viewer" where
  "setEditMode m f cl cc sl sc col s =
     (let s' = s\<lparr>mode := m, current_pane := f, current_line := cl, current_char := cc,
                 selection_line := sl, selection_char := sc, cursor_column := col\<rparr>
      in case (if m = CHAR_MODE then setCurrentChar cl cc s'
               else setCurrentLine f cl (Some sl) s') of
           Inl e \<Rightarrow> Inl e
         | Inr s'' \<Rightarrow> if darea_at (current_pane s) s then Inr s'' else Inl IndexError)"

text \<open>
  \<open>setLineMode\<close> and \<open>setCharMode\<close>, which change the mode and record nothing.  Leaving
  \<open>CHAR_MODE\<close> or \<open>ALIGN_MODE\<close> redraws the panes of the cursor.
\<close>

definition setLineMode :: "viewer \<Rightarrow> py_error + viewer" where
  "setLineMode s =
     (if mode s \<noteq> LINE_MODE
      then (if mode s = CHAR_MODE
            then (if darea_at (current_pane s) s
                  then Inr (s\<lparr>current_char := 0, selection_char := 0, mode := LINE_MODE\<rparr>)
                  else Inl IndexError)
            else (if darea_at (align_pane s) s \<and> darea_at (current_pane s) s
                  then Inr (s\<lparr>align_pane := 0, align_line := 0, mode := LINE_MODE\<rparr>)
                  else Inl IndexError))
      else Inr s)"

definition setCharMode :: "viewer \<Rightarrow> py_error + viewer" where
  "setCharMode s =
     (if mode s \<noteq> CHAR_MODE
      then (case (if mode s = LINE_MODE
                  then setCurrentChar (current_line s) 0 (s\<lparr>cursor_column := - 1\<rparr>)
                  else (if darea_at (align_pane s) s
                        then setCurrentChar (current_line s) 0
                               (s\<lparr>cursor_column := - 1, align_pane := 0, align_line := 0\<rparr>)
                        else Inl IndexError)) of
              Inl e \<Rightarrow> Inl e
            | Inr s' \<Rightarrow> Inr (s'\<lparr>mode := CHAR_MODE\<rparr>))
      else Inr s)"

definition swapPanes :: "nat \<Rightarrow> nat \<Rightarrow> viewer \<Rightarrow> py_error + viewer" where
  "swapPanes f_dst f_src s =
     (let s' = (note_undo (SwapPanesUndo f_dst f_src) s)\<lparr>current_pane := int f_dst\<rparr>
      in if f_dst < length (panes s) \<and> f_src < length (panes s)
         then Inr (s'\<lparr>panes := (panes s)[f_dst := panes s ! f_src, f_src := panes s ! f_dst]\<rparr>)
         else Inl IndexError)"

text \<open>\<open>_line_mode_enter_align_mode\<close>, the key binding that enters \<open>ALIGN_MODE\<close>.\<close>

definition enter_align_mode :: "viewer \<Rightarrow> viewer" where
  "enter_align_mode s =
     s\<lparr>mode := ALIGN_MODE, selection_line := current_line s,
       align_pane := current_pane s, align_line := current_line s\<rparr>"

subsection \<open>Undo and redo\<close>

text \<open>The \<open>undo\<close> and \<open>redo\<close> methods of the \<open>...Undo\<close> classes.\<close>

fun apply_undo :: "undo_rec \<Rightarrow> viewer \<Rightarrow> py_error + viewer" where
  "apply_undo (SetFormatUndo f fmt old_format) s = setFormat f old_format s"
| "apply_undo (InstanceLineUndo f i reverse) s = instanceLine f i (\<not> reverse) s"
| "apply_undo (UpdateLineTextUndo f i old_is_modified old_text is_mod txt) s =
     updateLineText f i old_is_modified old_text s"
| "apply_undo (InsertNullUndo f i reverse) s = insertNull f i (\<not> reverse) s"
| "apply_undo (InvalidateLineMatchingUndo i n new_n) s = invalidateLineMatching i new_n n s"
| "apply_undo (AlignmentChangeUndo finished) s = alignmentChange (\<not> finished) s"
| "apply_undo (UpdateBlocksUndo old_blocks bs) s = updateBlocks old_blocks s"
| "apply_undo (ReplaceLinesUndo f ls new_lines max_num new_max_num) s =
     replaceLines f new_lines ls new_max_num max_num s"
| "apply_undo (EditModeUndo m f cl cc sl sc col) s = setEditMode m f cl cc sl sc col s"
| "apply_undo (SwapPanesUndo f_dst f_src) s = swapPanes f_src f_dst s"

fun apply_redo :: "undo_rec \<Rightarrow> viewer \<Rightarrow> py_error + viewer" where
  "apply_redo (SetFormatUndo f fmt old_format) s = setFormat f fmt s"
| "apply_redo (InstanceLineUndo f i reverse) s = instanceLine f i reverse s"
| "apply_redo (UpdateLineTextUndo f i old_is_modified old_text is_mod txt) s =
     updateLineText f i is_mod txt s"
| "apply_redo (InsertNullUndo f i reverse) s = insertNull f i reverse s"
| "apply_redo (InvalidateLineMatchingUndo i n new_n) s = invalidateLineMatching i n new_n s"
| "apply_redo (AlignmentChangeUndo finished) s = alignmentChange finished s"
| "apply_redo (UpdateBlocksUndo old_blocks bs) s = updateBlocks bs s"
| "apply_redo (ReplaceLinesUndo f ls new_lines max_num new_max_num) s =
     replaceLines f ls new_lines max_num new_max_num s"
| "apply_redo (EditModeUndo m f cl cc sl sc col) s = setEditMode m f cl cc sl sc col s"
| "apply_redo (SwapPanesUndo f_dst f_src) s = swapPanes f_dst f_src s"

text \<open>A \<open>for u in ...: u.undo(self)\<close> loop: it stops at the first exception.\<close>

fun apply_all :: "(undo_rec \<Rightarrow> viewer \<Rightarrow> py_error + viewer) \<Rightarrow> undo_rec list \<Rightarrow> viewer \<Rightarrow> py_error + viewer" where
  "apply_all g [] s = Inr s"
| "apply_all g (u # us) s = (case g u s of Inl e \<Rightarrow> Inl e | Inr s' \<Rightarrow> apply_all g us s')"

text \<open>
  \<open>undo()\<close> and \<open>redo()\<close>.  Both start with
  \<open>self.undoblock, old_block = None, self.undoblock\<close> and end with
  \<open>self.undoblock = old_block\<close>; \<open>undo_suspended\<close> and \<open>redo_suspended\<close> are the statements
  in between.  \<open>old_block\<close> is a second reference to the list of the open transaction.
  The only statement of the program that appends to a list of records is
  \<open>self.undoblock.append(u)\<close> in \<open>addUndo\<close>, so that list changes only in a step that runs
  with \<open>self.undoblock\<close> referring to it.
\<close>

definition undo_suspended :: "viewer \<Rightarrow> py_error + viewer" where
  "undo_suspended s1 =
     (if (mode s1 = LINE_MODE \<or> mode s1 = CHAR_MODE) \<and> length (undos s1) > 0
      then apply_all apply_undo (rev (last (undos s1)))
             (s1\<lparr>undos := butlast (undos s1), redos := redos s1 @ [last (undos s1)]\<rparr>)
      else Inr s1)"

definition undo :: "viewer \<Rightarrow> py_error + viewer" where
  "undo s =
     (case undo_suspended (s\<lparr>undoblock := None\<rparr>) of
        Inl e \<Rightarrow> Inl e
      | Inr s2 \<Rightarrow> Inr (s2\<lparr>undoblock := undoblock s\<rparr>))"

definition redo_suspended :: "viewer \<Rightarrow> py_error + viewer" where
  "redo_suspended s1 =
     (if (mode s1 = LINE_MODE \<or> mode s1 = CHAR_MODE) \<and> length (redos s1) > 0
      then apply_all apply_redo (last (redos s1))
             (s1\<lparr>redos := butlast (redos s1), undos := undos s1 @ [last (redos s1)]\<rparr>)
      else Inr s1)"

definition redo :: "viewer \<Rightarrow> py_error + viewer" where
  "redo s =
     (case redo_suspended (s\<lparr>undoblock := None\<rparr>) of
        Inl e \<Rightarrow> Inl e
      | Inr s2 \<Rightarrow> Inr (s2\<lparr>undoblock := undoblock s\<rparr>))"




text \<open>
  What must hold between the state before and after a step that runs while no transaction
  is open: nothing is recorded and the two stacks are untouched.
\<close>

definition closed_frame :: "viewer \<Rightarrow> viewer \<Rightarrow> bool" where
  "closed_frame s s' \<longleftrightarrow> undoblock s' = None \<and> undos s' = undos s \<and> redos s' = redos s"

subsection \<open>User actions as transactions of primitive mutations\<close>

text \<open>
  A user action runs between \<open>openUndoBlock()\<close> and \<open>closeUndoBlock()\<close>.  It reaches the
  panes and the blocks only through the primitive mutations, each of which records
  itself; it may also move the cursor and change the mode, which records nothing
  (\<open>setLineMode\<close>, \<open>setCharMode\<close>, \<open>setCurrentLine\<close>, \<open>setCurrentChar\<close>).
\<close>

datatype prim =
    SetFormat nat int
  | InstanceLine nat nat bool
  | UpdateLineText nat nat bool "string option"
  | InsertNull nat nat bool
  | InvalidateLineMatching int int int
  | AlignmentChange bool
  | UpdateBlocks "int list"
  | ReplaceLines nat "line option list" "line option list" int int
  | RecordEditMode
  | SwapPanes nat nat
  | SetLineMode
  | SetCharMode
  | SetCurrentLine int int "int option"
  | SetCurrentChar int int

fun run_prim :: "prim \<Rightarrow> viewer \<Rightarrow> py_error + viewer" where
  "run_prim (SetFormat f fmt) s = setFormat f fmt s"
| "run_prim (InstanceLine f i reverse) s = instanceLine f i reverse s"
| "run_prim (UpdateLineText f i is_mod txt) s = updateLineText f i is_mod txt s"
| "run_prim (InsertNull f i reverse) s = insertNull f i reverse s"
| "run_prim (InvalidateLineMatching i n new_n) s = invalidateLineMatching i n new_n s"
| "run_prim (AlignmentChange finished) s = alignmentChange finished s"
| "run_prim (UpdateBlocks bs) s = updateBlocks bs s"
| "run_prim (ReplaceLines f ls new_lines max_num new_max_num) s =
     replaceLines f ls new_lines max_num new_max_num s"
| "run_prim RecordEditMode s = recordEditMode s"
| "run_prim (SwapPanes f_dst f_src) s = swapPanes f_dst f_src s"
| "run_prim SetLineMode s = setLineMode s"
| "run_prim SetCharMode s = setCharMode s"
| "run_prim (SetCurrentLine f i selection) s = setCurrentLine f i selection s"
| "run_prim (SetCurrentChar i j) s = setCurrentChar i j s"

text \<open>The primitives that create an \<open>...Undo\<close> object.\<close>

fun recording :: "prim \<Rightarrow> bool" where
  "recording SetLineMode = False"
| "recording SetCharMode = False"
| "recording (SetCurrentLine f i selection) = False"
| "recording (SetCurrentChar i j) = False"
| "recording p = True"

fun run_prims :: "prim list \<Rightarrow> viewer \<Rightarrow> py_error + viewer" where
  "run_prims [] s = Inr s"
| "run_prims (p # ps) s = (case run_prim p s of Inl e \<Rightarrow> Inl e | Inr s' \<Rightarrow> run_prims ps s')"

definition transaction :: "prim list \<Rightarrow> viewer \<Rightarrow> py_error + viewer" where
  "transaction ps s =
     (case run_prims ps (openUndoBlock s) of Inl e \<Rightarrow> Inl e | Inr s' \<Rightarrow> closeUndoBlock s')"

fun run_transactions :: "prim list list \<Rightarrow> viewer \<Rightarrow> py_error + viewer" where
  "run_transactions [] s = Inr s"
| "run_transactions (ps # tss) s =
     (case transaction ps s of Inl e \<Rightarrow> Inl e | Inr s' \<Rightarrow> run_transactions tss s')"

text \<open>
  The state in which the callers record the edit mode: the viewer is in \<open>LINE_MODE\<close> or
  \<open>CHAR_MODE\<close>, the cursor is in one of the panes, and in \<open>CHAR_MODE\<close> with the cursor
  past column 0 its row holds a line with a text.
\<close>

definition cursor_ok :: "viewer \<Rightarrow> bool" where
  "cursor_ok s \<longleftrightarrow>
     mode s \<noteq> ALIGN_MODE \<and> darea_at (current_pane s) s \<and>
     (mode s = CHAR_MODE \<and> 0 < current_char s \<longrightarrow>
        (case getLineText (current_pane s) (current_line s) s of
           Inl e \<Rightarrow> False
         | Inr None \<Rightarrow> False
         | Inr (Some t) \<Rightarrow> True))"

text \<open>
  How the callers use the primitives: a spacer is inserted at a row of the pane (or just
  past its end) and removed only where the entry is a spacer; a \<open>Line\<close> object is created
  only on a spacer entry and destroyed only when it is a blank \<open>Line()\<close>;
  \<open>replaceLines\<close> is given the pane's current lines as the old ones; and the edit mode
  is recorded in a state as above.
\<close>

fun prim_ok :: "prim \<Rightarrow> viewer \<Rightarrow> bool" where
  "prim_ok (InstanceLine f i reverse) s =
     (f < length (panes s) \<and> i < length (lines (panes s ! f)) \<and>
      lines (panes s ! f) ! i = (if reverse then Some new_Line else None))"
| "prim_ok (InsertNull f i reverse) s =
     (f < length (panes s) \<and>
      (if reverse then i < length (lines (panes s ! f)) \<and> lines (panes s ! f) ! i = None
       else i \<le> length (lines (panes s ! f))))"
| "prim_ok (ReplaceLines f ls new_lines max_num new_max_num) s =
     (f < length (panes s) \<and> ls = lines (panes s ! f))"
| "prim_ok RecordEditMode s = cursor_ok s"
| "prim_ok p s = True"

fun valid_prims :: "prim list \<Rightarrow> viewer \<Rightarrow> bool" where
  "valid_prims [] s = True"
| "valid_prims (p # ps) s =
     (prim_ok p s \<and> (case run_prim p s of Inl e \<Rightarrow> False | Inr s' \<Rightarrow> valid_prims ps s'))"

fun valid_transactions :: "prim list list \<Rightarrow> viewer \<Rightarrow> bool" where
  "valid_transactions [] s = True"
| "valid_transactions (ps # tss) s =
     (valid_prims ps (openUndoBlock s) \<and>
      (case transaction ps s of Inl e \<Rightarrow> False | Inr s' \<Rightarrow> valid_transactions tss s'))"

text \<open>The number of transactions that recorded something, and \<open>n\<close> calls in a row.\<close>

definition recorded :: "prim list list \<Rightarrow> nat" where
  "recorded tss = length (filter (list_ex recording) tss)"

fun repeat_call :: "(viewer \<Rightarrow> py_error + viewer) \<Rightarrow> nat \<Rightarrow> viewer \<Rightarrow> py_error + viewer" where
  "repeat_call g 0 s = Inr s"
| "repeat_call g (Suc n) s = (case g s of Inl e \<Rightarrow> Inl e | Inr s' \<Rightarrow> repeat_call g n s')"

text \<open>The pane contents (every pane's rows, with text and flags) and the block partition.\<close>

definition contents :: "viewer \<Rightarrow> line option list list \<times> int list" where
  "contents s = (map lines (panes s), blocks s)"

text \<open>
  A record is an exact inverse pair between two contents when, applied to any state with
  no open transaction and not in \<open>ALIGN_MODE\<close> (and, for a record of the edit mode, with
  the cursor in one of the panes), its \<open>undo\<close> leads from the second to the first and its
  \<open>redo\<close> from the first to the second, to a state of that kind again; likewise for the
  records of a transaction in sequence, and for the transactions of a stack.
\<close>

definition step_ok ::
  "(viewer \<Rightarrow> py_error + viewer) \<Rightarrow> viewer \<Rightarrow> line option list list \<times> int list \<Rightarrow> bool" where
  "step_ok g t c' \<longleftrightarrow>
     (\<exists>t'. g t = Inr t' \<and> contents t' = c' \<and> closed_frame t t' \<and> mode t' \<noteq> ALIGN_MODE \<and>
           (darea_at (current_pane t) t \<longrightarrow> darea_at (current_pane t') t'))"

fun is_mode_rec :: "undo_rec \<Rightarrow> bool" where
  "is_mode_rec (EditModeUndo m f cl cc sl sc col) = True"
| "is_mode_rec r = False"

definition inv_rec ::
  "undo_rec \<Rightarrow> line option list list \<times> int list \<Rightarrow> line option list list \<times> int list \<Rightarrow> bool" where
  "inv_rec r c c' \<longleftrightarrow>
     (\<forall>t. undoblock t = None \<longrightarrow> mode t \<noteq> ALIGN_MODE \<longrightarrow> contents t = c' \<longrightarrow>
          (is_mode_rec r \<longrightarrow> darea_at (current_pane t) t) \<longrightarrow> step_ok (apply_undo r) t c) \<and>
     (\<forall>t. undoblock t = None \<longrightarrow> mode t \<noteq> ALIGN_MODE \<longrightarrow> contents t = c \<longrightarrow>
          (is_mode_rec r \<longrightarrow> darea_at (current_pane t) t) \<longrightarrow> step_ok (apply_redo r) t c')"

fun inv_block ::
  "undo_rec list \<Rightarrow> line option list list \<times> int list \<Rightarrow> line option list list \<times> int list \<Rightarrow> bool" where
  "inv_block [] c c' = (c = c')"
| "inv_block (r # rs) c c' = (\<exists>cm. inv_rec r c cm \<and> inv_block rs cm c')"

fun inv_stack ::
  "undo_rec list list \<Rightarrow> line option list list \<times> int list \<Rightarrow> line option list list \<times> int list \<Rightarrow> bool" where
  "inv_stack [] c c' = (c = c')"
| "inv_stack (b # bs) c c' = (\<exists>cm. inv_block b c cm \<and> inv_stack bs cm c')"

text \<open>
  A viewer of two panes holding one loaded line each, in \<open>LINE_MODE\<close> with an empty
  history.
\<close>

definition example_viewer :: viewer where
  "example_viewer =
     \<lparr>panes = [new_Pane\<lparr>lines := [Some (Line_of 1 ''a'')], max_line_number := 1\<rparr>,
               new_Pane\<lparr>lines := [Some (Line_of 1 ''b'')], max_line_number := 1\<rparr>],
      blocks = [1], undos = [], redos = [], undoblock = None, mode = LINE_MODE,
      current_pane = 1, current_line = 0, current_char = 0, selection_line = 0,
      selection_char = 0, cursor_column = - 1, align_pane = 0, align_line = 0\<rparr>"

text \<open>
  A primitive that ran from \<open>s\<close> to \<open>s'\<close> with the transaction \<open>ub\<close> open has recorded
  \<open>r\<close>: the record is appended, the stacks are as before, \<open>r\<close> is an exact inverse pair
  between the two contents, and a record of the edit mode leaves the cursor in one of
  the panes.
\<close>

definition recorded_as ::
  "viewer \<Rightarrow> viewer \<Rightarrow> undo_rec list \<Rightarrow> undo_rec \<Rightarrow> bool" where
  "recorded_as s s' ub r \<longleftrightarrow>
     undoblock s' = Some (ub @ [r]) \<and> undos s' = undos s \<and> redos s' = redos s \<and>
     inv_rec r (contents s) (contents s') \<and>
     (is_mode_rec r \<longrightarrow> darea_at (current_pane s') s')"
section \<open>Properties of \<open>cutBlocks\<close>\<close>

lemma cutBlocks_loop_past:
  "i \<le> nlines \<Longrightarrow> \<forall>b\<in>set bs. 0 < b \<Longrightarrow> cutBlocks_loop i bs pre post nlines = (pre, post @ bs)"
  by (induction bs arbitrary: pre post nlines) auto

lemma cutBlocks_loop_shape:
  assumes "\<forall>b\<in>set bs. 0 < b" "nlines \<le> i" "i \<le> nlines + sum_list bs"
  shows "\<exists>k\<le>length bs.
           (nlines + sum_list (take k bs) = i \<and>
            cutBlocks_loop i bs pre post nlines = (pre @ take k bs, post @ drop k bs)) \<or>
           (k < length bs \<and> nlines + sum_list (take k bs) < i \<and>
            i < nlines + sum_list (take (Suc k) bs) \<and>
            cutBlocks_loop i bs pre post nlines =
              (pre @ take k bs @ [i - (nlines + sum_list (take k bs))],
               post @ (nlines + sum_list (take (Suc k) bs) - i) # drop (Suc k) bs))"
  using assms
proof (induction bs arbitrary: pre post nlines)
  case Nil
  then show ?case by simp
next
  case (Cons b bs)
  have pos: "\<forall>x\<in>set bs. 0 < x" and b: "0 < b" using Cons.prems(1) by auto
  consider (at) "nlines = i" | (whole) "nlines < i" "nlines + b \<le> i" | (split) "nlines < i" "i < nlines + b"
    using Cons.prems(2) by linarith
  then show ?case
  proof cases
    case at
    then have "cutBlocks_loop i (b # bs) pre post nlines = (pre, post @ b # bs)"
      using cutBlocks_loop_past[of i nlines "b # bs" pre post] Cons.prems(1) by simp
    then show ?thesis using at by (intro exI[of _ 0]) simp
  next
    case whole
    from Cons.IH[OF pos, of "nlines + b" "pre @ [b]" post] whole Cons.prems(3)
    obtain k where k: "k \<le> length bs"
      "(nlines + b + sum_list (take k bs) = i \<and>
            cutBlocks_loop i bs (pre @ [b]) post (nlines + b) = ((pre @ [b]) @ take k bs, post @ drop k bs)) \<or>
           (k < length bs \<and> nlines + b + sum_list (take k bs) < i \<and>
            i < nlines + b + sum_list (take (Suc k) bs) \<and>
            cutBlocks_loop i bs (pre @ [b]) post (nlines + b) =
              ((pre @ [b]) @ take k bs @ [i - (nlines + b + sum_list (take k bs))],
               post @ (nlines + b + sum_list (take (Suc k) bs) - i) # drop (Suc k) bs))"
      by (auto simp: add.assoc)
    show ?thesis
      using k whole by (intro exI[of _ "Suc k"]) (auto simp: add.assoc)
  next
    case split
    have "cutBlocks_loop i (b # bs) pre post nlines = (pre @ [i - nlines], post @ [b - (i - nlines)] @ bs)"
      using split cutBlocks_loop_past[of i "nlines + b" bs "pre @ [i - nlines]" "post @ [b - (i - nlines)]"] pos
      by (simp add: Let_def)
    then show ?thesis using split by (intro exI[of _ 0]) simp
  qed
qed


lemma straddles_iff:
  "straddles i blks \<longleftrightarrow>
     (\<exists>k<length blks. sum_list (take k blks) < i \<and> i < sum_list (take (Suc k) blks))"
  by (auto simp: straddles_def list_ex_iff)

lemma sum_take_mono:
  assumes "\<forall>b\<in>set bs. (0::int) < b" "j \<le> k"
  shows "sum_list (take j bs) \<le> sum_list (take k bs)"
proof -
  have "take k bs = take j bs @ take (k - j) (drop j bs)"
    using assms(2) by (metis le_add_diff_inverse take_add)
  moreover have "0 \<le> sum_list (take (k - j) (drop j bs))"
    using assms(1) by (intro sum_list_nonneg) (auto dest!: in_set_takeD in_set_dropD intro: less_imp_le)
  ultimately show ?thesis by simp
qed

lemma not_straddles_at_cut:
  assumes "\<forall>b\<in>set bs. (0::int) < b" "sum_list (take k bs) = i"
  shows "\<not> straddles i bs"
proof
  assume "straddles i bs"
  then obtain j where j: "j < length bs" "sum_list (take j bs) < i" "i < sum_list (take (Suc j) bs)"
    by (auto simp: straddles_iff)
  show False
  proof (cases "k \<le> j")
    case True
    then show ?thesis using sum_take_mono[OF assms(1), of k j] j assms(2) by simp
  next
    case False
    then have "Suc j \<le> k" by simp
    then show ?thesis using sum_take_mono[OF assms(1), of "Suc j" k] j assms(2) by simp
  qed
qed

text \<open>
  Claim C7.  For a partition \<open>blocks\<close> with strictly positive entries and a position
  \<open>0 \<le> i \<le> sum(blocks)\<close>, \<open>cutBlocks(i, blocks)\<close> returns \<open>(pre, post)\<close> with
  \<open>sum(pre) = i\<close> and no zero entry on either side.  When a block straddles \<open>i\<close> it is
  split into two positive parts, the last entry of \<open>pre\<close> and the first of \<open>post\<close>, and
  summing these two back into one block reconstructs \<open>blocks\<close>; when \<open>i\<close> falls on a
  block boundary, \<open>pre + post\<close> is \<open>blocks\<close> itself.
\<close>

theorem cutBlocks_correct:
  assumes "\<forall>b\<in>set blks. 0 < b" "0 \<le> i" "i \<le> sum_list blks"
  shows "case cutBlocks i blks of (pre, post) \<Rightarrow>
           sum_list pre = i \<and> 0 \<notin> set pre \<and> 0 \<notin> set post \<and>
           (if straddles i blks
            then pre \<noteq> [] \<and> post \<noteq> [] \<and> 0 < last pre \<and> 0 < hd post \<and>
                 rejoin pre post = blks
            else pre @ post = blks)"
proof -
  from cutBlocks_loop_shape[OF assms(1), of 0 i "[]" "[]"] assms(2,3)
  obtain k where k: "k \<le> length blks" and
    d: "(sum_list (take k blks) = i \<and> cutBlocks i blks = (take k blks, drop k blks)) \<or>
        (k < length blks \<and> sum_list (take k blks) < i \<and> i < sum_list (take (Suc k) blks) \<and>
         cutBlocks i blks =
           (take k blks @ [i - sum_list (take k blks)],
            (sum_list (take (Suc k) blks) - i) # drop (Suc k) blks))"
    by (auto simp: cutBlocks_def)
  have nz: "0 \<notin> set (take k blks)" "0 \<notin> set (drop k blks)" "0 \<notin> set (drop (Suc k) blks)"
    using assms(1) by (auto dest!: in_set_takeD in_set_dropD)
  from d show ?thesis
  proof
    assume a: "sum_list (take k blks) = i \<and> cutBlocks i blks = (take k blks, drop k blks)"
    then have "\<not> straddles i blks" using not_straddles_at_cut[OF assms(1)] by blast
    then show ?thesis using a nz by simp
  next
    assume a: "k < length blks \<and> sum_list (take k blks) < i \<and> i < sum_list (take (Suc k) blks) \<and>
         cutBlocks i blks =
           (take k blks @ [i - sum_list (take k blks)],
            (sum_list (take (Suc k) blks) - i) # drop (Suc k) blks)"
    then have s: "straddles i blks" by (auto simp: straddles_iff)
    have tk: "sum_list (take (Suc k) blks) = sum_list (take k blks) + blks ! k"
      using a by (simp add: take_Suc_conv_app_nth)
    have "take k blks @ [blks ! k] @ drop (Suc k) blks = blks"
      using a by (simp add: id_take_nth_drop[symmetric])
    then have "rejoin (take k blks @ [i - sum_list (take k blks)])
                 ((sum_list (take (Suc k) blks) - i) # drop (Suc k) blks) = blks"
      using tk by (simp add: rejoin_def)
    then show ?thesis using a s nz by simp
  qed
qed

theorem cutBlocks_correct_witness:
  "straddles 2 [3, 2] \<and> cutBlocks 2 [3, 2] = ([2], [1, 2]) \<and> rejoin [2] [1, 2] = [3, 2]"
  using cutBlocks_correct[of "[3, 2]" 2]
  by (simp add: cutBlocks_def straddles_def rejoin_def)

section \<open>Properties of \<open>mergeBlocks\<close>\<close>

lemma psums_append: "psums acc (xs @ ys) = psums acc xs @ psums (acc + sum_list xs) ys"
  by (induction xs arbitrary: acc) (auto simp: add.assoc)

lemma psums_lower:
  "\<forall>b\<in>set xs. 0 < b \<Longrightarrow> y \<in> set (psums acc xs) \<Longrightarrow> acc < y"
  by (induction xs arbitrary: acc) force+

lemma psums_upper:
  "\<forall>b\<in>set xs. 0 < b \<Longrightarrow> y \<in> set (psums acc xs) \<Longrightarrow> y \<le> acc + sum_list xs"
proof (induction xs arbitrary: acc)
  case Nil
  then show ?case by simp
next
  case (Cons x xs)
  have "0 \<le> sum_list xs" using Cons.prems(1) by (intro sum_list_nonneg) (auto intro: less_imp_le)
  with Cons show ?case by (fastforce simp: add.assoc)
qed

lemma cut_points_eq:
  assumes "\<forall>b\<in>set bs. 0 < b"
  shows "cut_points bs = set (psums 0 bs) - {sum_list bs}"
proof (cases bs rule: rev_cases)
  case Nil
  then show ?thesis by (simp add: cut_points_def)
next
  case (snoc ys y)
  have pos: "\<forall>b\<in>set ys. 0 < b" "0 < y" using assms snoc by auto
  have "\<And>z. z \<in> set (psums 0 ys) \<Longrightarrow> z < sum_list ys + y"
    using psums_upper[OF pos(1), of _ 0] pos(2) by fastforce
  then show ?thesis using snoc by (auto simp: cut_points_def psums_append)
qed

lemma mergeBlocks_loop_correct:
  assumes "\<forall>x\<in>set ls. 0 < x" "\<forall>x\<in>set rs. 0 < x" "sum_list ls = sum_list rs"
  shows "\<exists>m. mergeBlocks_loop ls rs b = Inr (b @ m) \<and> (\<forall>x\<in>set m. 0 < x) \<and>
             sum_list m = sum_list ls \<and>
             (\<forall>acc. set (psums acc m) = set (psums acc ls) \<union> set (psums acc rs))"
  using assms
proof (induction ls rs b rule: mergeBlocks_loop.induct)
  case (1 rightblocks b)
  have "rightblocks = []"
  proof (cases rightblocks)
    case (Cons r rs)
    have "0 \<le> sum_list rs" using 1(2) Cons by (intro sum_list_nonneg) (auto intro: less_imp_le)
    then show ?thesis using 1 Cons by simp
  qed simp
  then show ?case by simp
next
  case (2 nleft ls b)
  have "0 \<le> sum_list ls" using 2(1) by (intro sum_list_nonneg) (auto intro: less_imp_le)
  with 2 show ?case by simp
next
  case (3 nleft ls nright rs b)
  let ?n = "min nleft nright"
  let ?ls' = "if ?n < nleft then (nleft - ?n) # ls else ls"
  let ?rs' = "if ?n < nright then (nright - ?n) # rs else rs"
  have pl: "\<forall>x\<in>set ?ls'. 0 < x" using 3(2) by auto
  have pr: "\<forall>x\<in>set ?rs'. 0 < x" using 3(3) by auto
  have sl: "sum_list ?ls' = sum_list (nleft # ls) - ?n" by simp
  have sr: "sum_list ?rs' = sum_list (nright # rs) - ?n" by simp
  have se: "sum_list ?ls' = sum_list ?rs'" using sl sr 3(4) by simp
  from "3.IH"[OF refl pl pr se]
  obtain m where m: "mergeBlocks_loop ?ls' ?rs' (b @ [?n]) = Inr ((b @ [?n]) @ m)"
    "\<forall>x\<in>set m. 0 < x" "sum_list m = sum_list ?ls'"
    "\<forall>acc. set (psums acc m) = set (psums acc ?ls') \<union> set (psums acc ?rs')"
    by blast
  have n0: "0 < ?n" using 3(2,3) by simp
  have r: "mergeBlocks_loop (nleft # ls) (nright # rs) b = Inr (b @ (?n # m))"
    using m(1) by (simp add: Let_def)
  have c: "\<forall>acc. set (psums acc (?n # m)) = set (psums acc (nleft # ls)) \<union> set (psums acc (nright # rs))"
  proof
    fix acc
    have "set (psums (acc + ?n) m) = set (psums (acc + ?n) ?ls') \<union> set (psums (acc + ?n) ?rs')"
      using m(4) by blast
    then show "set (psums acc (?n # m)) = set (psums acc (nleft # ls)) \<union> set (psums acc (nright # rs))"
      by (auto simp: min_def split: if_splits)
  qed
  show ?case
    apply (rule exI[of _ "?n # m"])
    using r m(2) n0 m(3) sl c by simp
qed

text \<open>
  Claim C6.  For two partitions \<open>left\<close> and \<open>right\<close> with strictly positive entries
  and equal sums, \<open>mergeBlocks(left, right)\<close> returns a partition of the same total
  whose cut points (proper prefix sums) are exactly the cut points of \<open>left\<close> together
  with those of \<open>right\<close>, and which has no zero entry.
\<close>

theorem mergeBlocks_correct:
  assumes "\<forall>x\<in>set left. 0 < x" "\<forall>x\<in>set right. 0 < x" "sum_list left = sum_list right"
  shows "\<exists>m. mergeBlocks left right = Inr m \<and> sum_list m = sum_list left \<and>
             cut_points m = cut_points left \<union> cut_points right \<and> 0 \<notin> set m \<and>
             (\<forall>x\<in>set m. 0 < x)"
proof -
  from mergeBlocks_loop_correct[OF assms, of "[]"]
  obtain m where m: "mergeBlocks left right = Inr m" "\<forall>x\<in>set m. 0 < x"
    "sum_list m = sum_list left"
    "\<forall>acc. set (psums acc m) = set (psums acc left) \<union> set (psums acc right)"
    by (auto simp: mergeBlocks_def)
  have "cut_points m = cut_points left \<union> cut_points right"
    using cut_points_eq[OF m(2)] cut_points_eq[OF assms(1)] cut_points_eq[OF assms(2)]
      m(3,4) assms(3) by auto
  moreover have "0 \<notin> set m" using m(2) by auto
  ultimately show ?thesis using m by blast
qed

theorem mergeBlocks_correct_witness:
  "mergeBlocks [3, 4] [2, 2, 3] = Inr [2, 1, 1, 3] \<and>
   cut_points [2, 1, 1, 3] = cut_points [3, 4] \<union> cut_points [2, 2, 3]"
  using mergeBlocks_correct[of "[3, 4]" "[2, 2, 3]"]
  by (auto simp: mergeBlocks_def)

section \<open>Properties of \<open>removeNullLines\<close>\<close>

lemma all_null_at_in_range:
  "\<forall>l\<in>set ls. i < length l \<Longrightarrow> all_null_at ls i = Inr (\<forall>l\<in>set ls. l ! i = None)"
  by (induction ls) auto

lemma kept_rows_Suc:
  "kept_rows ls (Suc p) = kept_rows ls p @ (if null_row ls p then [] else [p])"
  by (simp add: kept_rows_def)

lemma squeezed_nth:
  "p < length l \<Longrightarrow> squeezed ls0 p l ! length (kept_rows ls0 p) = l ! p"
  by (simp add: squeezed_def nth_append)

lemma squeezed_keep:
  "p < length l \<Longrightarrow> \<not> null_row ls0 p \<Longrightarrow> squeezed ls0 (Suc p) l = squeezed ls0 p l"
  by (simp add: squeezed_def kept_rows_Suc Cons_nth_drop_Suc)

lemma squeezed_drop:
  "p < length l \<Longrightarrow> null_row ls0 p \<Longrightarrow>
   squeezed ls0 (Suc p) l = list_del (length (kept_rows ls0 p)) (squeezed ls0 p l)"
  by (simp add: squeezed_def kept_rows_Suc list_del_def drop_Suc tl_drop)

lemma length_squeezed:
  "p \<le> length l \<Longrightarrow> length (squeezed ls0 p l) = length (kept_rows ls0 p) + (length l - p)"
  by (simp add: squeezed_def)

lemma removeNullLines_rows_correct:
  assumes "\<forall>l\<in>set ls0. length l = n" "p + k \<le> n"
    "int (length (kept_rows ls0 p)) + int k = bn + b"
  shows "removeNullLines_rows bn (length (kept_rows ls0 p)) b (map (squeezed ls0 p) ls0) =
           Inr (length (kept_rows ls0 (p + k)),
                b - int (length (filter (null_row ls0) [p..<p + k])),
                map (squeezed ls0 (p + k)) ls0)"
  using assms(2,3)
proof (induction k arbitrary: p b)
  case 0
  then show ?case by (subst removeNullLines_rows.simps) simp
next
  case (Suc k)
  let ?i = "length (kept_rows ls0 p)"
  let ?cur = "map (squeezed ls0 p) ls0"
  have pn: "p < n" using Suc.prems by simp
  have inr: "\<forall>l\<in>set ?cur. ?i < length l"
    using assms(1) pn by (auto simp: length_squeezed)
  have nul: "(\<forall>l\<in>set ?cur. l ! ?i = None) = null_row ls0 p"
    using assms(1) pn by (auto simp: null_row_def list_all_iff squeezed_nth)
  have an: "all_null_at ?cur ?i = Inr (null_row ls0 p)"
    using all_null_at_in_range[OF inr] nul by simp
  have lt: "int ?i < bn + b" using Suc.prems by linarith
  have up: "[p..<p + Suc k] = p # [Suc p..<Suc p + k]" by (simp add: upt_rec)
  show ?case
  proof (cases "null_row ls0 p")
    case True
    have cur': "map (list_del (length (kept_rows ls0 p))) (map (squeezed ls0 p) ls0) = map (squeezed ls0 (Suc p)) ls0"
      using assms(1) pn True by (auto simp: squeezed_drop)
    have i': "length (kept_rows ls0 p) = length (kept_rows ls0 (Suc p))" using True by (simp add: kept_rows_Suc)
    have "removeNullLines_rows bn ?i b ?cur = removeNullLines_rows bn ?i (b - 1) (map (list_del ?i) ?cur)"
      using lt an True by (subst removeNullLines_rows.simps) simp
    also have "\<dots> = removeNullLines_rows bn (length (kept_rows ls0 (Suc p))) (b - 1) (map (squeezed ls0 (Suc p)) ls0)"
      by (subst cur', subst i', rule refl)
    also have "\<dots> = Inr (length (kept_rows ls0 (Suc p + k)),
                b - 1 - int (length (filter (null_row ls0) [Suc p..<Suc p + k])),
                map (squeezed ls0 (Suc p + k)) ls0)"
      using Suc.prems i' by (intro Suc.IH) auto
    finally show ?thesis using True up by simp
  next
    case False
    have cur': "map (squeezed ls0 p) ls0 = map (squeezed ls0 (Suc p)) ls0"
      using assms(1) pn False by (auto simp: squeezed_keep)
    have i': "length (kept_rows ls0 p) + 1 = length (kept_rows ls0 (Suc p))" using False by (simp add: kept_rows_Suc)
    have "removeNullLines_rows bn ?i b ?cur = removeNullLines_rows bn (?i + 1) b ?cur"
      using lt an False by (subst removeNullLines_rows.simps) simp
    also have "\<dots> = removeNullLines_rows bn (length (kept_rows ls0 (Suc p))) b (map (squeezed ls0 (Suc p)) ls0)"
      by (subst cur', subst i', rule refl)
    also have "\<dots> = Inr (length (kept_rows ls0 (Suc p + k)),
                b - int (length (filter (null_row ls0) [Suc p..<Suc p + k])),
                map (squeezed ls0 (Suc p + k)) ls0)"
      using Suc.prems i' by (intro Suc.IH) auto
    finally show ?thesis using False up by simp
  qed
qed


lemma kept_rows_count:
  "length (kept_rows ls (p + k)) + length (filter (null_row ls) [p..<p + k]) =
   length (kept_rows ls p) + k"
proof -
  have "[0..<p + k] = [0..<p] @ [p..<p + k]" by (rule upt_add_eq_append) simp
  then have "length (kept_rows ls (p + k)) =
      length (kept_rows ls p) + length (filter (\<lambda>r. \<not> null_row ls r) [p..<p + k])"
    by (simp add: kept_rows_def)
  moreover have "length (filter (null_row ls) [p..<p + k]) +
      length (filter (\<lambda>r. \<not> null_row ls r) [p..<p + k]) = k"
    using sum_length_filter_compl[of "null_row ls" "[p..<p + k]"] by simp
  ultimately show ?thesis by simp
qed

lemma removeNullLines_loop_correct:
  assumes "\<forall>l\<in>set ls0. length l = n"
  shows "\<forall>b\<in>set rest. 0 \<le> b \<Longrightarrow> int p + sum_list rest = int n \<Longrightarrow>
         removeNullLines_loop (length done) (int (length (kept_rows ls0 p)))
             (length (kept_rows ls0 p)) (done @ rest) (map (squeezed ls0 p) ls0) =
           Inr (done @ shrunk_blocks (null_row ls0) p rest, map (squeezed ls0 n) ls0)"
proof (induction rest arbitrary: "done" p)
  case Nil
  then show ?case by (subst removeNullLines_loop.simps) simp
next
  case (Cons b bs)
  let ?i = "length (kept_rows ls0 p)"
  let ?k = "nat b"
  let ?d = "length (filter (null_row ls0) [p..<p + ?k])"
  have b0: "0 \<le> b" and bs0: "\<forall>x\<in>set bs. 0 \<le> x" using Cons.prems(1) by auto
  have sbs: "0 \<le> sum_list bs" using bs0 by (intro sum_list_nonneg) auto
  have pk: "p + ?k \<le> n" using Cons.prems(2) b0 sbs by simp
  have rows: "removeNullLines_rows (int ?i) ?i b (map (squeezed ls0 p) ls0) =
           Inr (length (kept_rows ls0 (p + ?k)), b - int ?d, map (squeezed ls0 (p + ?k)) ls0)"
    using removeNullLines_rows_correct[OF assms pk, of "int ?i" b] b0 by simp
  have cnt: "int (length (kept_rows ls0 (p + ?k))) = int ?i + (b - int ?d)"
    using kept_rows_count[of ls0 p ?k] b0 by simp
  have rest': "int (p + ?k) + sum_list bs = int n" using Cons.prems(2) b0 by simp
  have sh: "shrunk_blocks (null_row ls0) p (b # bs) =
      (if b - int ?d = 0 then [] else [b - int ?d]) @ shrunk_blocks (null_row ls0) (p + ?k) bs"
    by (simp add: Let_def)
  have step: "removeNullLines_loop (length done) (int ?i) ?i (done @ b # bs) (map (squeezed ls0 p) ls0) =
      (if b - int ?d = 0
       then removeNullLines_loop (length done) (int ?i) (length (kept_rows ls0 (p + ?k)))
              (list_del (length done) ((done @ b # bs)[length done := b - int ?d]))
              (map (squeezed ls0 (p + ?k)) ls0)
       else removeNullLines_loop (length done + 1) (int ?i + (b - int ?d)) (length (kept_rows ls0 (p + ?k)))
              ((done @ b # bs)[length done := b - int ?d]) (map (squeezed ls0 (p + ?k)) ls0))"
    by (subst removeNullLines_loop.simps) (simp only: rows length_append list.size nth_append_length sum.case prod.case, simp)
  have upd: "(done @ b # bs)[length done := b - int ?d] = (done @ [b - int ?d]) @ bs"
    by simp
  have del: "list_del (length done) ((done @ [b - int ?d]) @ bs) = done @ bs"
    by (simp add: list_del_def)
  show ?case
  proof (cases "b - int ?d = 0")
    case True
    have "removeNullLines_loop (length done) (int ?i) ?i (done @ b # bs) (map (squeezed ls0 p) ls0) =
          removeNullLines_loop (length done) (int ?i) (length (kept_rows ls0 (p + ?k))) (done @ bs)
             (map (squeezed ls0 (p + ?k)) ls0)"
      unfolding step upd del using True by simp
    also have "\<dots> = removeNullLines_loop (length done) (int (length (kept_rows ls0 (p + ?k))))
             (length (kept_rows ls0 (p + ?k))) (done @ bs) (map (squeezed ls0 (p + ?k)) ls0)"
      using cnt True by simp
    also have "\<dots> = Inr (done @ shrunk_blocks (null_row ls0) (p + ?k) bs, map (squeezed ls0 n) ls0)"
      by (rule Cons.IH[OF bs0 rest'])
    finally show ?thesis using sh True by simp
  next
    case False
    have "removeNullLines_loop (length done) (int ?i) ?i (done @ b # bs) (map (squeezed ls0 p) ls0) =
          removeNullLines_loop (length done + 1) (int ?i + (b - int ?d)) (length (kept_rows ls0 (p + ?k)))
             ((done @ [b - int ?d]) @ bs) (map (squeezed ls0 (p + ?k)) ls0)"
      unfolding step upd using False by simp
    also have "\<dots> = removeNullLines_loop (length (done @ [b - int ?d])) (int (length (kept_rows ls0 (p + ?k))))
             (length (kept_rows ls0 (p + ?k))) ((done @ [b - int ?d]) @ bs) (map (squeezed ls0 (p + ?k)) ls0)"
      using cnt by simp
    also have "\<dots> = Inr ((done @ [b - int ?d]) @ shrunk_blocks (null_row ls0) (p + ?k) bs, map (squeezed ls0 n) ls0)"
      by (rule Cons.IH[OF bs0 rest'])
    finally show ?thesis using sh False by simp
  qed
qed

lemma shrunk_blocks_sum:
  "\<forall>b\<in>set bs. 0 \<le> b \<Longrightarrow>
   sum_list (shrunk_blocks nul off bs) =
     sum_list bs - int (length (filter nul [off..<off + nat (sum_list bs)]))"
proof (induction bs arbitrary: off)
  case Nil
  then show ?case by simp
next
  case (Cons b bs)
  have b0: "0 \<le> b" and bs0: "\<forall>x\<in>set bs. 0 \<le> x" using Cons.prems by auto
  have sbs: "0 \<le> sum_list bs" using bs0 by (intro sum_list_nonneg) auto
  have "[off..<off + nat b + nat (sum_list bs)] =
        [off..<off + nat b] @ [off + nat b..<off + nat b + nat (sum_list bs)]"
    by (rule upt_add_eq_append) simp
  moreover have "off + nat (b + sum_list bs) = off + nat b + nat (sum_list bs)"
    using b0 sbs by (simp add: nat_add_distrib)
  ultimately have "[off..<off + nat (b + sum_list bs)] =
        [off..<off + nat b] @ [off + nat b..<off + nat b + nat (sum_list bs)]"
    by (simp only:)
  then show ?case using Cons.IH[OF bs0, of "off + nat b"] by (simp add: Let_def)
qed

lemma shrunk_blocks_nonzero: "0 \<notin> set (shrunk_blocks nul off bs)"
  by (induction bs arbitrary: off) (auto simp: Let_def)

text \<open>
  Claim C8.  For a partition \<open>blocks\<close> (entries not negative) and sequences that all have
  length \<open>sum(blocks)\<close>, \<open>removeNullLines\<close> returns normally; every sequence keeps
  exactly the rows at which some sequence holds a line (in order) and loses the rows at
  which all hold \<open>None\<close>; every block loses one per deleted row it owned and is removed
  when it reaches zero; and the sum of the new blks is the new common length.
\<close>

theorem removeNullLines_correct:
  assumes "\<forall>b\<in>set blks. 0 \<le> b" "\<forall>l\<in>set lines_set. int (length l) = sum_list blks"
  shows "removeNullLines blks lines_set =
           Inr (shrunk_blocks (null_row lines_set) 0 blks,
                map (\<lambda>l. map (nth l) (kept_rows lines_set (nat (sum_list blks)))) lines_set) \<and>
         sum_list (shrunk_blocks (null_row lines_set) 0 blks) =
           int (length (kept_rows lines_set (nat (sum_list blks)))) \<and>
         0 \<notin> set (shrunk_blocks (null_row lines_set) 0 blks)"
proof -
  let ?n = "nat (sum_list blks)"
  have s0: "0 \<le> sum_list blks" using assms(1) by (intro sum_list_nonneg) auto
  have len: "\<forall>l\<in>set lines_set. length l = ?n" using assms(2) by auto
  have sq0: "map (squeezed lines_set 0) lines_set = lines_set"
    by (rule map_idI) (simp add: squeezed_def kept_rows_def)
  have sqn: "map (squeezed lines_set ?n) lines_set =
      map (\<lambda>l. map (nth l) (kept_rows lines_set ?n)) lines_set"
    using len by (simp add: squeezed_def)
  have "removeNullLines_loop (length ([]::int list)) (int (length (kept_rows lines_set 0)))
             (length (kept_rows lines_set 0)) ([] @ blks) (map (squeezed lines_set 0) lines_set) =
           Inr ([] @ shrunk_blocks (null_row lines_set) 0 blks, map (squeezed lines_set ?n) lines_set)"
    using assms(1) s0 by (intro removeNullLines_loop_correct[OF len]) auto
  moreover have "kept_rows lines_set 0 = []" by (simp add: kept_rows_def)
  ultimately have "removeNullLines_loop 0 0 0 blks lines_set =
           Inr (shrunk_blocks (null_row lines_set) 0 blks, map (squeezed lines_set ?n) lines_set)"
    by (simp add: sq0)
  then have r: "removeNullLines blks lines_set =
      Inr (shrunk_blocks (null_row lines_set) 0 blks,
                map (\<lambda>l. map (nth l) (kept_rows lines_set ?n)) lines_set)"
    by (simp only: removeNullLines_def sqn)
  have "length (kept_rows lines_set ?n) + length (filter (null_row lines_set) [0..<?n]) = ?n"
    using kept_rows_count[of lines_set 0 ?n] by (simp add: kept_rows_def)
  then have "sum_list (shrunk_blocks (null_row lines_set) 0 blks) =
      int (length (kept_rows lines_set ?n))"
    using shrunk_blocks_sum[OF assms(1), of "null_row lines_set" 0] s0 by simp
  then show ?thesis using r shrunk_blocks_nonzero[of "null_row lines_set" 0 blks] by simp
qed

theorem removeNullLines_correct_witness:
  "removeNullLines [2, 1] [[Some (1::nat), None, None], [None, None, Some 2]] =
     Inr ([1, 1], [[Some 1, None], [None, Some 2]])"
proof -
  let ?X = "[[Some (1::nat), None, None], [None, None, Some 2]]"
  have h1: "\<forall>b\<in>set [2, 1::int]. 0 \<le> b" by simp
  have h2: "\<forall>l\<in>set ?X. int (length l) = sum_list [2, 1]" by simp
  have e1: "shrunk_blocks (null_row ?X) 0 [2, 1] = [1, 1]" by code_simp
  have e2: "map (\<lambda>l. map (nth l) (kept_rows ?X (nat (sum_list [2, 1])))) ?X =
              [[Some 1, None], [None, Some 2]]" by code_simp
  show ?thesis using removeNullLines_correct[OF h1 h2] unfolding e1 e2 by simp
qed

section \<open>Properties of the undo log\<close>

lemma note_undo_closed [simp]: "undoblock s = None \<Longrightarrow> note_undo u s = s"
  by (simp add: note_undo_def)


lemma setCurrentLine_frame:
  "setCurrentLine f i sel s = Inr s' \<Longrightarrow>
   undoblock s' = undoblock s \<and> undos s' = undos s \<and> redos s' = redos s \<and>
   blocks s' = blocks s \<and> panes s' = panes s \<and> mode s' = mode s"
  by (auto simp: setCurrentLine_def Let_def split: if_splits)

lemma setCurrentChar_frame:
  "setCurrentChar i j s = Inr s' \<Longrightarrow>
   undoblock s' = undoblock s \<and> undos s' = undos s \<and> redos s' = redos s \<and>
   blocks s' = blocks s \<and> panes s' = panes s \<and> mode s' = mode s"
  by (auto simp: setCurrentChar_def Let_def split: if_splits sum.splits)















text \<open>
  Claim C9.  \<open>closeUndoBlock()\<close> on an open transaction returns normally and closes it.
  A transaction with no record is discarded: both stacks are unchanged.  A transaction
  with at least one record is pushed onto the undo stack and the redo stack is cleared.
  The panes and the block partition are not touched.
\<close>

theorem closeUndoBlock_correct:
  assumes "undoblock s = Some ub"
  shows "\<exists>s'. closeUndoBlock s = Inr s' \<and> undoblock s' = None \<and> panes s' = panes s \<and>
              blocks s' = blocks s \<and>
              (if ub = [] then undos s' = undos s \<and> redos s' = redos s
               else undos s' = undos s @ [ub] \<and> redos s' = [])"
  using assms by (simp add: closeUndoBlock_def)

theorem closeUndoBlock_correct_witness:
  "\<exists>s. new_viewer 2 = Inr s \<and>
     closeUndoBlock (s\<lparr>undoblock := Some [AlignmentChangeUndo True]\<rparr>) =
       Inr (s\<lparr>undos := [[AlignmentChangeUndo True]]\<rparr>) \<and>
     closeUndoBlock (s\<lparr>undoblock := Some [], redos := [[AlignmentChangeUndo True]]\<rparr>) =
       Inr (s\<lparr>redos := [[AlignmentChangeUndo True]]\<rparr>)"
proof -
  obtain s where s: "new_viewer 2 = Inr s" by (simp add: new_viewer_def)
  have e: "undoblock s = None" "undos s = []" "redos s = []"
    using s by (auto simp: new_viewer_def)
  from closeUndoBlock_correct[of "s\<lparr>undoblock := Some [AlignmentChangeUndo True]\<rparr>" "[AlignmentChangeUndo True]"]
  have "closeUndoBlock (s\<lparr>undoblock := Some [AlignmentChangeUndo True]\<rparr>) =
       Inr (s\<lparr>undos := [[AlignmentChangeUndo True]]\<rparr>)"
    using e by (simp add: closeUndoBlock_def)
  moreover have "closeUndoBlock (s\<lparr>undoblock := Some [], redos := [[AlignmentChangeUndo True]]\<rparr>) =
       Inr (s\<lparr>redos := [[AlignmentChangeUndo True]]\<rparr>)"
    using e by (simp add: closeUndoBlock_def)
  ultimately show ?thesis using s by blast
qed





section \<open>Undo and redo as inverses\<close>

subsection \<open>The primitives on a state with no open transaction\<close>

lemma contents_D:
  assumes "contents t = (L, B)"
  shows "length (panes t) = length L" "blocks t = B" "f < length L \<Longrightarrow> lines (panes t ! f) = L ! f"
  using assms by (auto simp: contents_def)

lemma eff_with_pane:
  assumes "undoblock t = None" "mode t \<noteq> ALIGN_MODE" "contents t = (L, B)" "f < length L"
    "g (panes t ! f) = Inr p"
  shows "step_ok (with_pane f g) t (L[f := lines p], B)"
proof -
  have len: "f < length (panes t)" using contents_D(1)[OF assms(3)] assms(4) by simp
  have r: "with_pane f g t = Inr (t\<lparr>panes := (panes t)[f := p]\<rparr>)"
    using len assms(5) by (simp add: with_pane_def)
  have c: "contents (t\<lparr>panes := (panes t)[f := p]\<rparr>) = (L[f := lines p], B)"
    using assms(3) by (auto simp: contents_def map_update)
  show ?thesis unfolding step_ok_def r
    using c assms(1,2) by (simp add: closed_frame_def darea_at_def)
qed

lemma eff_setFormat:
  assumes "undoblock t = None" "mode t \<noteq> ALIGN_MODE" "contents t = (L, B)" "f < length L"
  shows "step_ok (setFormat f x) t (L, B)"
proof -
  have len: "f < length (panes t)" using contents_D(1)[OF assms(3)] assms(4) by simp
  have "step_ok (with_pane f (\<lambda>p. Inr (p\<lparr>format := x\<rparr>))) t (L[f := lines ((panes t ! f)\<lparr>format := x\<rparr>)], B)"
    by (rule eff_with_pane[OF assms]) simp
  moreover have "L[f := lines ((panes t ! f)\<lparr>format := x\<rparr>)] = L"
    using contents_D(3)[OF assms(3,4)] by simp
  moreover have "setFormat f x t = with_pane f (\<lambda>p. Inr (p\<lparr>format := x\<rparr>)) t"
    using len assms(1) by (simp add: setFormat_def)
  ultimately show ?thesis by (simp add: step_ok_def)
qed

lemma eff_instanceLine:
  assumes "undoblock t = None" "mode t \<noteq> ALIGN_MODE" "contents t = (L, B)" "f < length L"
    "i < length (L ! f)"
  shows "step_ok (instanceLine f i rv) t (L[f := (L ! f)[i := (if rv then None else Some new_Line)]], B)"
proof -
  let ?g = "\<lambda>p. if i < length (lines p)
             then Inr (p\<lparr>lines := (lines p)[i := (if rv then None else Some new_Line)]\<rparr>)
             else Inl IndexError"
  have l: "lines (panes t ! f) = L ! f" by (rule contents_D(3)[OF assms(3,4)])
  have "step_ok (with_pane f ?g) t
     (L[f := lines ((panes t ! f)\<lparr>lines := (L ! f)[i := (if rv then None else Some new_Line)]\<rparr>)], B)"
    by (rule eff_with_pane[OF assms(1-4)]) (simp add: l assms(5))
  then show ?thesis using assms(1) by (simp add: step_ok_def instanceLine_def)
qed

lemma eff_updateLineText:
  assumes "undoblock t = None" "mode t \<noteq> ALIGN_MODE" "contents t = (L, B)" "f < length L"
    "i < length (L ! f)" "L ! f ! i = Some l"
  shows "step_ok (updateLineText f i m x) t
           (L[f := (L ! f)[i := Some (l\<lparr>is_modified := m, modified_text := x\<rparr>)]], B)"
proof -
  let ?g = "\<lambda>p. Inr (p\<lparr>num_edits :=
                               (if m \<and> \<not> is_modified l then num_edits p + 1
                                else if \<not> m \<and> is_modified l then num_edits p - 1
                                else num_edits p),
                             lines := (lines p)[i := Some (l\<lparr>is_modified := m,
                                                             modified_text := x\<rparr>)]\<rparr>)"
  have len: "f < length (panes t)" using contents_D(1)[OF assms(3)] assms(4) by simp
  have l: "lines (panes t ! f) = L ! f" by (rule contents_D(3)[OF assms(3,4)])
  have "step_ok (with_pane f ?g) t
     (L[f := lines ((panes t ! f)\<lparr>num_edits :=
                               (if m \<and> \<not> is_modified l then num_edits (panes t ! f) + 1
                                else if \<not> m \<and> is_modified l then num_edits (panes t ! f) - 1
                                else num_edits (panes t ! f)),
            lines := (L ! f)[i := Some (l\<lparr>is_modified := m, modified_text := x\<rparr>)]\<rparr>)], B)"
    by (rule eff_with_pane[OF assms(1-4)]) (simp add: l)
  moreover have "updateLineText f i m x t = with_pane f ?g t"
    using len l assms(1,5,6) by (simp add: updateLineText_def)
  ultimately show ?thesis by (simp add: step_ok_def)
qed

lemma eff_insertNull:
  assumes "undoblock t = None" "mode t \<noteq> ALIGN_MODE" "contents t = (L, B)" "f < length L"
  shows "step_ok (insertNull f i False) t (L[f := take i (L ! f) @ None # drop i (L ! f)], B)"
    and "i < length (L ! f) \<Longrightarrow> step_ok (insertNull f i True) t (L[f := list_del i (L ! f)], B)"
proof -
  have l: "lines (panes t ! f) = L ! f" by (rule contents_D(3)[OF assms(3,4)])
  have "step_ok (with_pane f (\<lambda>p. Inr (p\<lparr>lines := take i (lines p) @ None # drop i (lines p)\<rparr>))) t
     (L[f := lines ((panes t ! f)\<lparr>lines := take i (L ! f) @ None # drop i (L ! f)\<rparr>)], B)"
    by (rule eff_with_pane[OF assms(1-4)]) (simp add: l)
  then show "step_ok (insertNull f i False) t (L[f := take i (L ! f) @ None # drop i (L ! f)], B)"
    using assms(1) by (simp add: step_ok_def insertNull_def)
  assume i: "i < length (L ! f)"
  have "step_ok (with_pane f (\<lambda>p. if i < length (lines p) then Inr (p\<lparr>lines := list_del i (lines p)\<rparr>)
                   else Inl IndexError)) t
     (L[f := lines ((panes t ! f)\<lparr>lines := list_del i (L ! f)\<rparr>)], B)"
    by (rule eff_with_pane[OF assms(1-4)]) (simp add: l i)
  then show "step_ok (insertNull f i True) t (L[f := list_del i (L ! f)], B)"
    using assms(1) by (simp add: step_ok_def insertNull_def)
qed

lemma eff_replaceLines:
  assumes "undoblock t = None" "mode t \<noteq> ALIGN_MODE" "contents t = (L, B)" "f < length L"
  shows "step_ok (replaceLines f old new a b) t (L[f := new], B)"
proof -
  have "step_ok (with_pane f (\<lambda>p. Inr (p\<lparr>lines := new, num_edits := count_edits new,
                    max_line_number := b\<rparr>))) t
     (L[f := lines ((panes t ! f)\<lparr>lines := new, num_edits := count_edits new,
                    max_line_number := b\<rparr>)], B)"
    by (rule eff_with_pane[OF assms(1-4)]) simp
  then show ?thesis using assms(1) by (simp add: step_ok_def replaceLines_def)
qed

lemma eff_simple:
  assumes "undoblock t = None" "mode t \<noteq> ALIGN_MODE" "contents t = (L, B)"
  shows "step_ok (invalidateLineMatching i n k) t (L, B)"
    and "step_ok (alignmentChange fin) t (L, B)"
    and "step_ok (updateBlocks bs) t (L, bs)"
  using assms
  by (auto simp: step_ok_def invalidateLineMatching_def alignmentChange_def updateBlocks_def
      closed_frame_def contents_def darea_at_def)

lemma eff_swapPanes:
  assumes "undoblock t = None" "mode t \<noteq> ALIGN_MODE" "contents t = (L, B)"
    "a < length L" "b < length L"
  shows "step_ok (swapPanes a b) t (L[a := L ! b, b := L ! a], B)"
proof -
  have len: "a < length (panes t)" "b < length (panes t)"
    using contents_D(1)[OF assms(3)] assms(4,5) by simp_all
  have r: "swapPanes a b t =
      Inr (t\<lparr>current_pane := int a, panes := (panes t)[a := panes t ! b, b := panes t ! a]\<rparr>)"
    using len assms(1) by (simp add: swapPanes_def Let_def)
  have "map lines ((panes t)[a := panes t ! b, b := panes t ! a]) = L[a := L ! b, b := L ! a]"
    using assms(3) len by (auto simp: contents_def map_update)
  then show ?thesis unfolding step_ok_def r using assms(1,2,3) len
    by (simp add: closed_frame_def contents_def darea_at_def)
qed

lemma clamp_pane: "0 < n \<Longrightarrow> nat (max (min f (int n - 1)) 0) < n"
  by arith

lemma clamp_pane_area:
  "0 < n \<Longrightarrow> - int n \<le> max (min f (int n - 1)) 0 \<and> max (min f (int n - 1)) 0 < int n"
  by arith

lemma contents_length:
  "contents t = contents s \<Longrightarrow> length (panes t) = length (panes s)"
  by (simp add: contents_def) (metis length_map)

lemma getLineText_contents:
  "contents t = contents s \<Longrightarrow> getLineText f i t = getLineText f i s"
  by (simp add: getLineText_def contents_def)

text \<open>
  \<open>setEditMode\<close> with the fields of a state \<open>s\<close> in which the edit mode may be recorded,
  applied to a state with the contents of \<open>s\<close>.
\<close>

lemma eff_setEditMode:
  assumes "undoblock t = None" "contents t = contents s" "darea_at (current_pane t) t"
    "cursor_ok s"
  shows "step_ok (setEditMode (mode s) (current_pane s) (current_line s) (current_char s) sl sc col)
           t (contents s)"
proof -
  let ?m = "mode s" and ?f = "current_pane s" and ?cl = "current_line s" and ?cc = "current_char s"
  let ?s = "t\<lparr>mode := ?m, current_pane := ?f, current_line := ?cl, current_char := ?cc,
                 selection_line := sl, selection_char := sc, cursor_column := col\<rparr>"
  have n: "length (panes t) = length (panes s)" by (rule contents_length[OF assms(2)])
  have m: "?m \<noteq> ALIGN_MODE" and df: "darea_at ?f s"
    using assms(4) by (simp_all add: cursor_ok_def)
  have dft: "- int (length (panes t)) \<le> ?f" "?f < int (length (panes t))"
    using df n by (simp_all add: darea_at_def)
  have dt: "- int (length (panes t)) \<le> current_pane t" "current_pane t < int (length (panes t))"
    using assms(3) by (simp_all add: darea_at_def)
  show ?thesis
  proof (cases "?m = CHAR_MODE")
    case True
    let ?s1 = "?s\<lparr>cursor_column := - 1, current_line := ?cl, current_char := ?cc,
                 selection_line := ?cl, selection_char := ?cc\<rparr>"
    have c1: "contents ?s1 = contents s" using assms(2) by (simp add: contents_def)
    have x: "cursor_x_offset ?s1 = Inr ()"
    proof (cases "0 < ?cc")
      case pos: True
      then obtain x where "getLineText ?f ?cl s = Inr (Some x)"
        using assms(4) True by (auto simp: cursor_ok_def split: sum.splits option.splits)
      then have "getLineText ?f ?cl ?s1 = Inr (Some x)"
        using getLineText_contents[OF c1] by simp
      then show ?thesis using pos by (simp add: cursor_x_offset_def)
    next
      case False
      then show ?thesis by (simp add: cursor_x_offset_def)
    qed
    have "setCurrentChar ?cl ?cc ?s = Inr ?s1"
      using True x dft by (simp add: setCurrentChar_def darea_at_def)
    then have r: "setEditMode ?m ?f ?cl ?cc sl sc col t = Inr ?s1"
      using True dt by (simp add: setEditMode_def darea_at_def)
    have "closed_frame t ?s1" "mode ?s1 \<noteq> ALIGN_MODE" "darea_at (current_pane ?s1) ?s1"
      using assms(1) m dft by (simp_all add: closed_frame_def darea_at_def)
    then show ?thesis unfolding step_ok_def r using c1 by simp
  next
    case False
    have pos: "0 < length (panes t)" using dft by linarith
    let ?f' = "max (min ?f (int (length (panes t)) - 1)) 0"
    let ?i' = "max (min ?cl (int (length (lines (panes t ! nat ?f'))))) 0"
    let ?s1 = "?s\<lparr>current_pane := ?f', current_line := ?i', selection_line := sl\<rparr>"
    have f': "nat ?f' < length (panes t)" by (rule clamp_pane[OF pos])
    have "setCurrentLine ?f ?cl (Some sl) ?s = Inr ?s1"
      using f' dft by (simp add: setCurrentLine_def darea_at_def Let_def)
    then have r: "setEditMode ?m ?f ?cl ?cc sl sc col t = Inr ?s1"
      using False dt by (simp add: setEditMode_def darea_at_def)
    have "contents ?s1 = contents s" using assms(2) by (simp add: contents_def)
    moreover have "closed_frame t ?s1" "mode ?s1 \<noteq> ALIGN_MODE"
      using assms(1) m by (simp_all add: closed_frame_def)
    moreover have "darea_at (current_pane ?s1) ?s1"
      using clamp_pane_area[OF pos, of ?f] by (simp add: darea_at_def)
    ultimately show ?thesis unfolding step_ok_def r by simp
  qed
qed

subsection \<open>What each primitive records\<close>

lemma recorded_asI:
  assumes "undoblock s' = Some (ub @ [r])" "undos s' = undos s" "redos s' = redos s"
    "\<not> is_mode_rec r" "contents s = c" "contents s' = c'"
    "\<And>t. undoblock t = None \<Longrightarrow> mode t \<noteq> ALIGN_MODE \<Longrightarrow> contents t = c' \<Longrightarrow>
        step_ok (apply_undo r) t c"
    "\<And>t. undoblock t = None \<Longrightarrow> mode t \<noteq> ALIGN_MODE \<Longrightarrow> contents t = c \<Longrightarrow>
        step_ok (apply_redo r) t c'"
  shows "recorded_as s s' ub r"
  using assms unfolding recorded_as_def inv_rec_def by blast

lemma apply_undo_fun:
  "apply_undo (SetFormatUndo f fmt old_format) = setFormat f old_format"
  "apply_undo (InstanceLineUndo f i rv) = instanceLine f i (\<not> rv)"
  "apply_undo (UpdateLineTextUndo f i om ot m x) = updateLineText f i om ot"
  "apply_undo (InsertNullUndo f i rv) = insertNull f i (\<not> rv)"
  "apply_undo (InvalidateLineMatchingUndo j n k) = invalidateLineMatching j k n"
  "apply_undo (AlignmentChangeUndo fin) = alignmentChange (\<not> fin)"
  "apply_undo (UpdateBlocksUndo ob bs) = updateBlocks ob"
  "apply_undo (ReplaceLinesUndo f ls nls a b) = replaceLines f nls ls b a"
  "apply_undo (EditModeUndo md cp cl cc sl sc col) = setEditMode md cp cl cc sl sc col"
  "apply_undo (SwapPanesUndo fd fs) = swapPanes fs fd"
  by (rule ext, simp)+

lemma apply_redo_fun:
  "apply_redo (SetFormatUndo f fmt old_format) = setFormat f fmt"
  "apply_redo (InstanceLineUndo f i rv) = instanceLine f i rv"
  "apply_redo (UpdateLineTextUndo f i om ot m x) = updateLineText f i m x"
  "apply_redo (InsertNullUndo f i rv) = insertNull f i rv"
  "apply_redo (InvalidateLineMatchingUndo j n k) = invalidateLineMatching j n k"
  "apply_redo (AlignmentChangeUndo fin) = alignmentChange fin"
  "apply_redo (UpdateBlocksUndo ob bs) = updateBlocks bs"
  "apply_redo (ReplaceLinesUndo f ls nls a b) = replaceLines f ls nls a b"
  "apply_redo (EditModeUndo md cp cl cc sl sc col) = setEditMode md cp cl cc sl sc col"
  "apply_redo (SwapPanesUndo fd fs) = swapPanes fd fs"
  by (rule ext, simp)+

lemma upd_same: "xs ! i = x \<Longrightarrow> xs[i := x] = xs"
  by auto

lemma open_with_pane:
  assumes "undoblock s = Some ub" "f < length (panes s)" "g (panes s ! f) = Inr p"
  shows "with_pane f g (note_undo r s) =
           Inr (s\<lparr>undoblock := Some (ub @ [r]), panes := (panes s)[f := p]\<rparr>)"
  using assms by (simp add: with_pane_def note_undo_def)

lemma contents_upd:
  "contents s = (L, B) \<Longrightarrow>
   contents (s\<lparr>undoblock := u, panes := (panes s)[f := p]\<rparr>) = (L[f := lines p], B)"
  by (auto simp: contents_def map_update)

lemma rec_setFormat:
  assumes "undoblock s = Some ub" "setFormat f x s = Inr s'"
  shows "recorded_as s s' ub (SetFormatUndo f x (format (panes s ! f)))"
proof -
  obtain L B where cs: "contents s = (L, B)" by (cases "contents s")
  have len: "f < length (panes s)" using assms(2) by (simp add: setFormat_def split: if_splits)
  have fL: "f < length L" "lines (panes s ! f) = L ! f"
    using contents_D[OF cs] len by simp_all
  have s': "s' = s\<lparr>undoblock := Some (ub @ [SetFormatUndo f x (format (panes s ! f))]),
                  panes := (panes s)[f := (panes s ! f)\<lparr>format := x\<rparr>]\<rparr>"
    using assms(2) len open_with_pane[OF assms(1) len, of "\<lambda>p. Inr (p\<lparr>format := x\<rparr>)"]
    by (simp add: setFormat_def)
  have c': "contents s' = (L, B)"
    unfolding s' contents_upd[OF cs] using fL by simp
  show ?thesis
  proof (rule recorded_asI[where c = "(L, B)" and c' = "(L, B)"])
    fix t assume t: "undoblock t = None" "mode t \<noteq> ALIGN_MODE" "contents t = (L, B)"
    show "step_ok (apply_undo (SetFormatUndo f x (format (panes s ! f)))) t (L, B)"
      by (simp add: apply_undo_fun apply_redo_fun eff_setFormat[OF t fL(1)])
    show "step_ok (apply_redo (SetFormatUndo f x (format (panes s ! f)))) t (L, B)"
      by (simp add: apply_undo_fun apply_redo_fun eff_setFormat[OF t fL(1)])
  qed (simp_all add: s' cs c'[unfolded s'])
qed

lemma rec_instanceLine:
  assumes "undoblock s = Some ub" "instanceLine f i rv s = Inr s'"
    "prim_ok (InstanceLine f i rv) s"
  shows "recorded_as s s' ub (InstanceLineUndo f i rv)"
proof -
  obtain L B where cs: "contents s = (L, B)" by (cases "contents s")
  have len: "f < length (panes s)" using assms(3) by simp
  have fL: "f < length L" "lines (panes s ! f) = L ! f"
    using contents_D[OF cs] len by simp_all
  have i: "i < length (L ! f)" "L ! f ! i = (if rv then Some new_Line else None)"
    using assms(3) fL by simp_all
  let ?M = "L[f := (L ! f)[i := (if rv then None else Some new_Line)]]"
  have s': "s' = s\<lparr>undoblock := Some (ub @ [InstanceLineUndo f i rv]),
       panes := (panes s)[f := (panes s ! f)\<lparr>lines := (L ! f)[i := (if rv then None else Some new_Line)]\<rparr>]\<rparr>"
    using assms(2) open_with_pane[OF assms(1) len, of _ _ "InstanceLineUndo f i rv"] fL i
    by (simp add: instanceLine_def)
  have c': "contents s' = (?M, B)"
    unfolding s' contents_upd[OF cs] by simp
  have undoes: "?M[f := (?M ! f)[i := (if \<not> rv then None else Some new_Line)]] = L"
    using fL(1) i by (cases rv) (simp_all add: upd_same)
  show ?thesis
  proof (rule recorded_asI[where c = "(L, B)" and c' = "(?M, B)"])
    fix t assume t: "undoblock t = None" "mode t \<noteq> ALIGN_MODE" "contents t = (?M, B)"
    have "step_ok (instanceLine f i (\<not> rv)) t
        (?M[f := (?M ! f)[i := (if \<not> rv then None else Some new_Line)]], B)"
      using fL(1) i(1) by (intro eff_instanceLine[OF t]) simp_all
    then show "step_ok (apply_undo (InstanceLineUndo f i rv)) t (L, B)"
      unfolding undoes by (simp add: apply_undo_fun)
  next
    fix t assume t: "undoblock t = None" "mode t \<noteq> ALIGN_MODE" "contents t = (L, B)"
    show "step_ok (apply_redo (InstanceLineUndo f i rv)) t (?M, B)"
      using eff_instanceLine[OF t fL(1) i(1), of rv] by (simp add: apply_redo_fun)
  qed (simp_all add: s' cs c'[unfolded s'])
qed


lemma rec_updateLineText:
  assumes "undoblock s = Some ub" "updateLineText f i m x s = Inr s'"
  shows "\<exists>r. recorded_as s s' ub r \<and> \<not> is_mode_rec r"
proof -
  obtain L B where cs: "contents s = (L, B)" by (cases "contents s")
  have len: "f < length (panes s)" "i < length (lines (panes s ! f))"
    using assms(2) by (simp_all add: updateLineText_def split: if_splits)
  have fL: "f < length L" "lines (panes s ! f) = L ! f"
    using contents_D[OF cs] len by simp_all
  obtain l where l: "L ! f ! i = Some l"
    using assms(2) len fL by (cases "L ! f ! i") (simp_all add: updateLineText_def)
  have i: "i < length (L ! f)" using len fL by simp
  let ?l = "l\<lparr>is_modified := m, modified_text := x\<rparr>"
  let ?r = "UpdateLineTextUndo f i (is_modified l) (modified_text l) m x"
  let ?M = "L[f := (L ! f)[i := Some ?l]]"
  let ?p = "(panes s ! f)\<lparr>num_edits :=
                               (if m \<and> \<not> is_modified l then num_edits (panes s ! f) + 1
                                else if \<not> m \<and> is_modified l then num_edits (panes s ! f) - 1
                                else num_edits (panes s ! f)),
                             lines := (L ! f)[i := Some ?l]\<rparr>"
  have s': "s' = s\<lparr>undoblock := Some (ub @ [?r]), panes := (panes s)[f := ?p]\<rparr>"
    using assms(2) len fL l open_with_pane[OF assms(1) len(1), of _ ?p ?r]
    by (simp add: updateLineText_def)
  have c': "contents s' = (?M, B)"
    unfolding s' contents_upd[OF cs] by simp
  have li: "?M ! f ! i = Some ?l" "i < length (?M ! f)" "f < length ?M"
    using fL(1) i by simp_all
  have undoes: "?M[f := (?M ! f)[i := Some (?l\<lparr>is_modified := is_modified l,
      modified_text := modified_text l\<rparr>)]] = L"
    using fL(1) i l by (simp add: upd_same)
  have "recorded_as s s' ub ?r"
  proof (rule recorded_asI[where c = "(L, B)" and c' = "(?M, B)"])
    fix t assume t: "undoblock t = None" "mode t \<noteq> ALIGN_MODE" "contents t = (?M, B)"
    have "step_ok (updateLineText f i (is_modified l) (modified_text l)) t
        (?M[f := (?M ! f)[i := Some (?l\<lparr>is_modified := is_modified l,
      modified_text := modified_text l\<rparr>)]], B)"
      by (rule eff_updateLineText[OF t li(3) li(2) li(1)])
    then show "step_ok (apply_undo ?r) t (L, B)"
      unfolding undoes by (simp add: apply_undo_fun)
  next
    fix t assume t: "undoblock t = None" "mode t \<noteq> ALIGN_MODE" "contents t = (L, B)"
    show "step_ok (apply_redo ?r) t (?M, B)"
      using eff_updateLineText[OF t fL(1) i l, of m x] by (simp add: apply_redo_fun)
  qed (simp_all add: s' cs c'[unfolded s'])
  then show ?thesis by (intro exI[of _ ?r]) simp
qed

lemma take_del_ins:
  "i \<le> length xs \<Longrightarrow> list_del i (take i xs @ None # drop i xs) = xs"
  "i < length xs \<Longrightarrow> xs ! i = None \<Longrightarrow>
     take i (list_del i xs) @ None # drop i (list_del i xs) = xs"
proof -
  show "i \<le> length xs \<Longrightarrow> list_del i (take i xs @ None # drop i xs) = xs"
    by (simp add: list_del_def min_def)
  assume a: "i < length xs" "xs ! i = None"
  have "take i xs @ None # drop (Suc i) xs = xs"
    using id_take_nth_drop[OF a(1)] a(2) by simp
  then show "take i (list_del i xs) @ None # drop i (list_del i xs) = xs"
    using a(1) by (simp add: list_del_def min_def)
qed

lemma rec_insertNull:
  assumes "undoblock s = Some ub" "insertNull f i rv s = Inr s'"
    "prim_ok (InsertNull f i rv) s"
  shows "recorded_as s s' ub (InsertNullUndo f i rv)"
proof -
  obtain L B where cs: "contents s = (L, B)" by (cases "contents s")
  have len: "f < length (panes s)" using assms(3) by simp
  have fL: "f < length L" "lines (panes s ! f) = L ! f"
    using contents_D[OF cs] len by simp_all
  let ?new = "if rv then list_del i (L ! f) else take i (L ! f) @ None # drop i (L ! f)"
  let ?M = "L[f := ?new]"
  have ok: "if rv then i < length (L ! f) \<and> L ! f ! i = None else i \<le> length (L ! f)"
    using assms(3) fL by (cases rv) simp_all
  have s': "s' = s\<lparr>undoblock := Some (ub @ [InsertNullUndo f i rv]),
       panes := (panes s)[f := (panes s ! f)\<lparr>lines := ?new\<rparr>]\<rparr>"
    using assms(2) open_with_pane[OF assms(1) len, of _ _ "InsertNullUndo f i rv"] fL ok
    by (cases rv) (simp_all add: insertNull_def)
  have c': "contents s' = (?M, B)"
    unfolding s' contents_upd[OF cs] by simp
  have Mf: "f < length ?M" "?M ! f = ?new" using fL(1) by simp_all
  show ?thesis
  proof (rule recorded_asI[where c = "(L, B)" and c' = "(?M, B)"])
    fix t assume t: "undoblock t = None" "mode t \<noteq> ALIGN_MODE" "contents t = (?M, B)"
    show "step_ok (apply_undo (InsertNullUndo f i rv)) t (L, B)"
    proof (cases rv)
      case True
      have "step_ok (insertNull f i False) t (?M[f := take i (?M ! f) @ None # drop i (?M ! f)], B)"
        by (rule eff_insertNull(1)[OF t Mf(1)])
      moreover have "?M[f := take i (?M ! f) @ None # drop i (?M ! f)] = L"
        using True ok fL(1) by (simp add: take_del_ins(2) upd_same)
      ultimately show ?thesis using True by (simp add: apply_undo_fun)
    next
      case False
      have "i < length (?M ! f)" using False ok fL(1) by simp
      then have "step_ok (insertNull f i True) t (?M[f := list_del i (?M ! f)], B)"
        by (rule eff_insertNull(2)[OF t Mf(1)])
      moreover have "?M[f := list_del i (?M ! f)] = L"
        using False ok fL(1) by (simp add: take_del_ins(1) upd_same)
      ultimately show ?thesis using False by (simp add: apply_undo_fun)
    qed
  next
    fix t assume t: "undoblock t = None" "mode t \<noteq> ALIGN_MODE" "contents t = (L, B)"
    show "step_ok (apply_redo (InsertNullUndo f i rv)) t (?M, B)"
    proof (cases rv)
      case True
      then show ?thesis using eff_insertNull(2)[OF t fL(1), of i] ok by (simp add: apply_redo_fun)
    next
      case False
      then show ?thesis using eff_insertNull(1)[OF t fL(1), of i] by (simp add: apply_redo_fun)
    qed
  qed (simp_all add: s' cs c'[unfolded s'])
qed


lemma rec_replaceLines:
  assumes "undoblock s = Some ub" "replaceLines f old new a b s = Inr s'"
    "prim_ok (ReplaceLines f old new a b) s"
  shows "recorded_as s s' ub (ReplaceLinesUndo f old new a b)"
proof -
  obtain L B where cs: "contents s = (L, B)" by (cases "contents s")
  have len: "f < length (panes s)" using assms(3) by simp
  have fL: "f < length L" "lines (panes s ! f) = L ! f"
    using contents_D[OF cs] len by simp_all
  have old: "old = L ! f" using assms(3) fL by simp
  let ?M = "L[f := new]"
  have s': "s' = s\<lparr>undoblock := Some (ub @ [ReplaceLinesUndo f old new a b]),
       panes := (panes s)[f := (panes s ! f)\<lparr>lines := new, num_edits := count_edits new,
                    max_line_number := b\<rparr>]\<rparr>"
    using assms(2) open_with_pane[OF assms(1) len, of _ _ "ReplaceLinesUndo f old new a b"]
    by (simp add: replaceLines_def)
  have c': "contents s' = (?M, B)"
    unfolding s' contents_upd[OF cs] by simp
  have Mf: "f < length ?M" using fL(1) by simp
  show ?thesis
  proof (rule recorded_asI[where c = "(L, B)" and c' = "(?M, B)"])
    fix t assume t: "undoblock t = None" "mode t \<noteq> ALIGN_MODE" "contents t = (?M, B)"
    have "?M[f := old] = L" using old by (simp add: upd_same)
    then show "step_ok (apply_undo (ReplaceLinesUndo f old new a b)) t (L, B)"
      using eff_replaceLines[OF t Mf, of new old b a] by (simp add: apply_undo_fun)
  next
    fix t assume t: "undoblock t = None" "mode t \<noteq> ALIGN_MODE" "contents t = (L, B)"
    show "step_ok (apply_redo (ReplaceLinesUndo f old new a b)) t (?M, B)"
      using eff_replaceLines[OF t fL(1), of old new a b] by (simp add: apply_redo_fun)
  qed (simp_all add: s' cs c'[unfolded s'])
qed

lemma rec_simple:
  assumes "undoblock s = Some ub"
  shows "invalidateLineMatching i n k s = Inr s' \<Longrightarrow>
           recorded_as s s' ub (InvalidateLineMatchingUndo i n k)"
    and "alignmentChange fin s = Inr s' \<Longrightarrow> recorded_as s s' ub (AlignmentChangeUndo fin)"
proof -
  obtain L B where cs: "contents s = (L, B)" by (cases "contents s")
  {
    assume r: "invalidateLineMatching i n k s = Inr s'"
    have s': "s' = s\<lparr>undoblock := Some (ub @ [InvalidateLineMatchingUndo i n k])\<rparr>"
      using r assms by (simp add: invalidateLineMatching_def note_undo_def)
    show "recorded_as s s' ub (InvalidateLineMatchingUndo i n k)"
    proof (rule recorded_asI[where c = "(L, B)" and c' = "(L, B)"])
      fix t assume t: "undoblock t = None" "mode t \<noteq> ALIGN_MODE" "contents t = (L, B)"
      show "step_ok (apply_undo (InvalidateLineMatchingUndo i n k)) t (L, B)"
        by (simp add: apply_undo_fun eff_simple(1)[OF t])
      show "step_ok (apply_redo (InvalidateLineMatchingUndo i n k)) t (L, B)"
        by (simp add: apply_redo_fun eff_simple(1)[OF t])
    qed (use cs in \<open>simp_all add: s' contents_def\<close>)
  }
  {
    assume r: "alignmentChange fin s = Inr s'"
    have s': "s' = s\<lparr>undoblock := Some (ub @ [AlignmentChangeUndo fin])\<rparr>"
      using r assms by (simp add: alignmentChange_def note_undo_def)
    show "recorded_as s s' ub (AlignmentChangeUndo fin)"
    proof (rule recorded_asI[where c = "(L, B)" and c' = "(L, B)"])
      fix t assume t: "undoblock t = None" "mode t \<noteq> ALIGN_MODE" "contents t = (L, B)"
      show "step_ok (apply_undo (AlignmentChangeUndo fin)) t (L, B)"
        by (simp add: apply_undo_fun eff_simple(2)[OF t])
      show "step_ok (apply_redo (AlignmentChangeUndo fin)) t (L, B)"
        by (simp add: apply_redo_fun eff_simple(2)[OF t])
    qed (use cs in \<open>simp_all add: s' contents_def\<close>)
  }
qed

lemma rec_updateBlocks:
  assumes "undoblock s = Some ub" "updateBlocks bs s = Inr s'"
  shows "recorded_as s s' ub (UpdateBlocksUndo (blocks s) bs)"
proof -
  obtain L B where cs: "contents s = (L, B)" by (cases "contents s")
  have B: "blocks s = B" using cs by (simp add: contents_def)
  have s': "s' = s\<lparr>undoblock := Some (ub @ [UpdateBlocksUndo B bs]), blocks := bs\<rparr>"
    using assms B by (simp add: updateBlocks_def note_undo_def)
  show ?thesis unfolding B
  proof (rule recorded_asI[where c = "(L, B)" and c' = "(L, bs)"])
    fix t assume t: "undoblock t = None" "mode t \<noteq> ALIGN_MODE" "contents t = (L, bs)"
    show "step_ok (apply_undo (UpdateBlocksUndo B bs)) t (L, B)"
      by (simp add: apply_undo_fun eff_simple(3)[OF t])
  next
    fix t assume t: "undoblock t = None" "mode t \<noteq> ALIGN_MODE" "contents t = (L, B)"
    show "step_ok (apply_redo (UpdateBlocksUndo B bs)) t (L, bs)"
      by (simp add: apply_redo_fun eff_simple(3)[OF t])
  qed (use cs in \<open>simp_all add: s' contents_def\<close>)
qed

lemma rec_recordEditMode:
  assumes "undoblock s = Some ub" "recordEditMode s = Inr s'" "cursor_ok s"
  shows "\<exists>r. recorded_as s s' ub r \<and> darea_at (current_pane s') s'"
proof -
  let ?r = "EditModeUndo (mode s) (current_pane s) (current_line s) (current_char s)
                       (selection_line s) (selection_char s) (cursor_column s)"
  have s': "s' = s\<lparr>undoblock := Some (ub @ [?r])\<rparr>"
    using assms by (simp add: recordEditMode_def note_undo_def)
  have d: "darea_at (current_pane s') s'"
    using assms(3) by (simp add: s' cursor_ok_def darea_at_def)
  have u: "step_ok (apply_undo ?r) t (contents s)" and r: "step_ok (apply_redo ?r) t (contents s)"
    if "undoblock t = None" "contents t = contents s" "darea_at (current_pane t) t" for t
    by (simp_all add: apply_undo_fun apply_redo_fun eff_setEditMode[OF that assms(3)])
  have "inv_rec ?r (contents s) (contents s')"
    unfolding inv_rec_def using u r by (simp add: s' contents_def)
  then have "recorded_as s s' ub ?r"
    using d by (simp add: recorded_as_def s')
  then show ?thesis using d by blast
qed

lemma swap_back:
  assumes "a < length L" "b < length L"
  shows "(L[a := L ! b, b := L ! a])[b := (L[a := L ! b, b := L ! a]) ! a,
            a := (L[a := L ! b, b := L ! a]) ! b] = L"
  using assms by (intro nth_equalityI) (auto simp: nth_list_update)

lemma rec_swapPanes:
  assumes "undoblock s = Some ub" "swapPanes a b s = Inr s'"
  shows "recorded_as s s' ub (SwapPanesUndo a b)"
proof -
  obtain L B where cs: "contents s = (L, B)" by (cases "contents s")
  have len: "a < length (panes s)" "b < length (panes s)"
    using assms(2) by (simp_all add: swapPanes_def Let_def split: if_splits)
  have aL: "a < length L" "b < length L" using contents_D(1)[OF cs] len by simp_all
  let ?M = "L[a := L ! b, b := L ! a]"
  have s': "s' = s\<lparr>undoblock := Some (ub @ [SwapPanesUndo a b]), current_pane := int a,
       panes := (panes s)[a := panes s ! b, b := panes s ! a]\<rparr>"
    using assms len by (simp add: swapPanes_def Let_def note_undo_def)
  have "map lines ((panes s)[a := panes s ! b, b := panes s ! a]) = ?M"
    using cs len by (auto simp: contents_def map_update)
  then have c': "contents s' = (?M, B)"
    using cs by (simp add: s' contents_def)
  show ?thesis
  proof (rule recorded_asI[where c = "(L, B)" and c' = "(?M, B)"])
    fix t assume t: "undoblock t = None" "mode t \<noteq> ALIGN_MODE" "contents t = (?M, B)"
    have "step_ok (swapPanes b a) t (?M[b := ?M ! a, a := ?M ! b], B)"
      using aL by (intro eff_swapPanes[OF t]) simp_all
    then show "step_ok (apply_undo (SwapPanesUndo a b)) t (L, B)"
      unfolding swap_back[OF aL] by (simp add: apply_undo_fun)
  next
    fix t assume t: "undoblock t = None" "mode t \<noteq> ALIGN_MODE" "contents t = (L, B)"
    show "step_ok (apply_redo (SwapPanesUndo a b)) t (?M, B)"
      using eff_swapPanes[OF t aL] by (simp add: apply_redo_fun)
  qed (simp_all add: s' cs c'[unfolded s'])
qed

text \<open>No primitive takes the cursor out of the panes.\<close>

lemma with_pane_cursor:
  "with_pane f g (note_undo r s) = Inr s' \<Longrightarrow>
   current_pane s' = current_pane s \<and> length (panes s') = length (panes s)"
  by (auto simp: with_pane_def note_undo_def split: if_splits sum.splits option.splits)

lemma setCurrentChar_cursor:
  "setCurrentChar i j s = Inr s' \<Longrightarrow>
   current_pane s' = current_pane s \<and> panes s' = panes s"
  by (auto simp: setCurrentChar_def Let_def split: if_splits sum.splits)

lemma run_prim_cursor:
  assumes "run_prim p s = Inr s'" "darea_at (current_pane s) s"
  shows "darea_at (current_pane s') s'"
proof (cases p)
  case (SetFormat f x)
  then show ?thesis using assms with_pane_cursor[of f _ _ s s']
    by (auto simp: setFormat_def darea_at_def split: if_splits)
next
  case (InstanceLine f i rv)
  then show ?thesis using assms with_pane_cursor[of f _ _ s s']
    by (auto simp: instanceLine_def darea_at_def)
next
  case (UpdateLineText f i m x)
  then show ?thesis using assms with_pane_cursor[of f _ _ s s']
    by (auto simp: updateLineText_def darea_at_def split: if_splits option.splits)
next
  case (InsertNull f i rv)
  then show ?thesis using assms with_pane_cursor[of f _ _ s s']
    by (auto simp: insertNull_def darea_at_def)
next
  case (InvalidateLineMatching i n k)
  then show ?thesis using assms
    by (auto simp: invalidateLineMatching_def note_undo_def darea_at_def split: option.splits)
next
  case (AlignmentChange fin)
  then show ?thesis using assms
    by (auto simp: alignmentChange_def note_undo_def darea_at_def split: option.splits)
next
  case (UpdateBlocks bs)
  then show ?thesis using assms
    by (auto simp: updateBlocks_def note_undo_def darea_at_def split: option.splits)
next
  case (ReplaceLines f old new a b)
  then show ?thesis using assms with_pane_cursor[of f _ _ s s']
    by (auto simp: replaceLines_def darea_at_def)
next
  case RecordEditMode
  then show ?thesis using assms
    by (auto simp: recordEditMode_def note_undo_def darea_at_def split: option.splits)
next
  case (SwapPanes a b)
  then show ?thesis using assms(1)
    by (auto simp: swapPanes_def Let_def darea_at_def split: if_splits)
next
  case SetLineMode
  then show ?thesis using assms
    by (auto simp: setLineMode_def darea_at_def split: if_splits)
next
  case SetCharMode
  show ?thesis
  proof (cases "mode s = CHAR_MODE")
    case True
    then show ?thesis using assms SetCharMode by (simp add: setCharMode_def)
  next
    case False
    then obtain s0 s1 where s1: "setCurrentChar (current_line s) 0 s0 = Inr s1"
      "s' = s1\<lparr>mode := CHAR_MODE\<rparr>" "current_pane s0 = current_pane s" "panes s0 = panes s"
      using assms(1) SetCharMode by (auto simp: setCharMode_def split: if_splits sum.splits)
    from setCurrentChar_cursor[OF s1(1)] s1(2-4) assms(2) show ?thesis
      by (simp add: darea_at_def)
  qed
next
  case (SetCurrentLine f i sel)
  then have r: "setCurrentLine f i sel s = Inr s'" using assms(1) by simp
  then have pos: "0 < length (panes s)"
    by (auto simp: setCurrentLine_def Let_def split: if_splits)
  from r have "current_pane s' = max (min f (int (length (panes s)) - 1)) 0" "panes s' = panes s"
    by (auto simp: setCurrentLine_def Let_def split: if_splits)
  then show ?thesis using clamp_pane_area[OF pos, of f] by (simp add: darea_at_def)
next
  case (SetCurrentChar i j)
  then show ?thesis using assms setCurrentChar_cursor[of i j s s'] by (simp add: darea_at_def)
qed

lemma run_prim_recorded:
  assumes "undoblock s = Some ub" "run_prim p s = Inr s'" "prim_ok p s" "recording p"
  shows "\<exists>r. recorded_as s s' ub r"
proof (cases p)
  case (SetFormat f x)
  then show ?thesis using rec_setFormat[OF assms(1)] assms(2) by (simp; blast)
next
  case (InstanceLine f i rv)
  with assms have "recorded_as s s' ub (InstanceLineUndo f i rv)"
    by (intro rec_instanceLine) simp_all
  then show ?thesis ..
next
  case (UpdateLineText f i m x)
  then show ?thesis using rec_updateLineText[OF assms(1)] assms(2) by (simp; blast)
next
  case (InsertNull f i rv)
  with assms have "recorded_as s s' ub (InsertNullUndo f i rv)"
    by (intro rec_insertNull) simp_all
  then show ?thesis ..
next
  case (InvalidateLineMatching i n k)
  then show ?thesis using rec_simple(1)[OF assms(1)] assms(2) by (simp; blast)
next
  case (AlignmentChange fin)
  then show ?thesis using rec_simple(2)[OF assms(1)] assms(2) by (simp; blast)
next
  case (UpdateBlocks bs)
  then show ?thesis using rec_updateBlocks[OF assms(1)] assms(2) by (simp; blast)
next
  case (ReplaceLines f old new a b)
  with assms have "recorded_as s s' ub (ReplaceLinesUndo f old new a b)"
    by (intro rec_replaceLines) simp_all
  then show ?thesis ..
next
  case RecordEditMode
  then show ?thesis using rec_recordEditMode[OF assms(1)] assms(2,3) by (simp; blast)
next
  case (SwapPanes a b)
  then show ?thesis using rec_swapPanes[OF assms(1)] assms(2) by (simp; blast)
qed (use assms(4) in simp_all)

text \<open>The cursor and mode changes leave the contents, the open transaction and the stacks.\<close>

lemma setLineMode_frame:
  "setLineMode s = Inr s' \<Longrightarrow>
   undoblock s' = undoblock s \<and> undos s' = undos s \<and> redos s' = redos s \<and>
   blocks s' = blocks s \<and> panes s' = panes s"
  by (auto simp: setLineMode_def split: if_splits)

lemma setCharMode_frame:
  assumes "setCharMode s = Inr s'"
  shows "undoblock s' = undoblock s \<and> undos s' = undos s \<and> redos s' = redos s \<and>
         blocks s' = blocks s \<and> panes s' = panes s"
proof (cases "mode s = CHAR_MODE")
  case True
  then show ?thesis using assms by (simp add: setCharMode_def)
next
  case False
  then obtain s0 s1 where s1: "setCurrentChar (current_line s) 0 s0 = Inr s1"
    "s' = s1\<lparr>mode := CHAR_MODE\<rparr>"
    "undoblock s0 = undoblock s \<and> undos s0 = undos s \<and> redos s0 = redos s \<and>
     blocks s0 = blocks s \<and> panes s0 = panes s"
    using assms by (auto simp: setCharMode_def split: if_splits sum.splits)
  from setCurrentChar_frame[OF s1(1)] s1(2,3) show ?thesis by simp
qed

lemma run_prim_unrecorded:
  assumes "run_prim p s = Inr s'" "\<not> recording p"
  shows "undoblock s' = undoblock s \<and> undos s' = undos s \<and> redos s' = redos s \<and>
         contents s' = contents s"
proof (cases p)
  case SetLineMode
  then show ?thesis using setLineMode_frame[of s s'] assms(1) by (simp add: contents_def)
next
  case SetCharMode
  then show ?thesis using setCharMode_frame[of s s'] assms(1) by (simp add: contents_def)
next
  case (SetCurrentLine f i sel)
  then show ?thesis using setCurrentLine_frame[of f i sel s s'] assms(1)
    by (simp add: contents_def)
next
  case (SetCurrentChar i j)
  then show ?thesis using setCurrentChar_frame[of i j s s'] assms(1) by (simp add: contents_def)
qed (use assms(2) in simp_all)

subsection \<open>Transactions and the two stacks\<close>

lemma apply_all_append:
  "apply_all g (xs @ ys) s =
     (case apply_all g xs s of Inl e \<Rightarrow> Inl e | Inr s' \<Rightarrow> apply_all g ys s')"
  by (induction xs arbitrary: s) (auto split: sum.splits)

lemma step_ok_seq:
  assumes "step_ok g t cm"
    "\<And>t1. undoblock t1 = None \<Longrightarrow> mode t1 \<noteq> ALIGN_MODE \<Longrightarrow> contents t1 = cm \<Longrightarrow>
       (darea_at (current_pane t) t \<longrightarrow> darea_at (current_pane t1) t1) \<Longrightarrow> step_ok h t1 c"
  shows "step_ok (\<lambda>s. case g s of Inl e \<Rightarrow> Inl e | Inr s' \<Rightarrow> h s') t c"
proof -
  from assms(1) obtain t1 where t1: "g t = Inr t1" "contents t1 = cm" "closed_frame t t1"
    "mode t1 \<noteq> ALIGN_MODE" "darea_at (current_pane t) t \<longrightarrow> darea_at (current_pane t1) t1"
    by (auto simp: step_ok_def)
  from assms(2)[OF _ t1(4) t1(2) t1(5)] t1(3)
  obtain t2 where t2: "h t1 = Inr t2" "contents t2 = c" "closed_frame t1 t2" "mode t2 \<noteq> ALIGN_MODE"
    "darea_at (current_pane t1) t1 \<longrightarrow> darea_at (current_pane t2) t2"
    by (auto simp: step_ok_def closed_frame_def)
  have "closed_frame t t2" using t1(3) t2(3) by (simp add: closed_frame_def)
  then show ?thesis using t1(1,5) t2 by (simp add: step_ok_def)
qed

lemma step_ok_id:
  "undoblock t = None \<Longrightarrow> mode t \<noteq> ALIGN_MODE \<Longrightarrow> step_ok Inr t (contents t)"
  by (simp add: step_ok_def closed_frame_def)

lemma apply_all_fun:
  "apply_all g [] = Inr"
  "apply_all g (u # us) = (\<lambda>s. case g u s of Inl e \<Rightarrow> Inl e | Inr s' \<Rightarrow> apply_all g us s')"
  "apply_all g (xs @ ys) = (\<lambda>s. case apply_all g xs s of Inl e \<Rightarrow> Inl e | Inr s' \<Rightarrow> apply_all g ys s')"
  by (rule ext, simp add: apply_all_append)+

lemma block_redo:
  "inv_block b c c' \<Longrightarrow> undoblock t = None \<Longrightarrow> mode t \<noteq> ALIGN_MODE \<Longrightarrow> contents t = c \<Longrightarrow>
   (list_ex is_mode_rec b \<longrightarrow> darea_at (current_pane t) t) \<Longrightarrow>
   step_ok (apply_all apply_redo b) t c'"
proof (induction b arbitrary: c t)
  case Nil
  then show ?case using step_ok_id[of t] by (simp add: apply_all_fun)
next
  case (Cons r rs)
  from Cons.prems(1) obtain cm where cm: "inv_rec r c cm" "inv_block rs cm c'"
    by (auto simp del: split_paired_Ex)
  have 1: "step_ok (apply_redo r) t cm"
    using cm(1) Cons.prems(2-5) by (simp add: inv_rec_def)
  show ?case unfolding apply_all_fun(2)
  proof (rule step_ok_seq[OF 1])
    fix t1 assume a: "undoblock t1 = None" "mode t1 \<noteq> ALIGN_MODE" "contents t1 = cm"
      "darea_at (current_pane t) t \<longrightarrow> darea_at (current_pane t1) t1"
    have "list_ex is_mode_rec rs \<longrightarrow> darea_at (current_pane t1) t1"
      using a(4) Cons.prems(5) by simp
    from Cons.IH[OF cm(2) a(1-3) this] show "step_ok (apply_all apply_redo rs) t1 c'" .
  qed
qed

lemma block_undo:
  "inv_block b c c' \<Longrightarrow> undoblock t = None \<Longrightarrow> mode t \<noteq> ALIGN_MODE \<Longrightarrow> contents t = c' \<Longrightarrow>
   (list_ex is_mode_rec b \<longrightarrow> darea_at (current_pane t) t) \<Longrightarrow>
   step_ok (apply_all apply_undo (rev b)) t c"
proof (induction b arbitrary: c t)
  case Nil
  then show ?case using step_ok_id[of t] by (simp add: apply_all_fun)
next
  case (Cons r rs)
  from Cons.prems(1) obtain cm where cm: "inv_rec r c cm" "inv_block rs cm c'"
    by (auto simp del: split_paired_Ex)
  have "list_ex is_mode_rec rs \<longrightarrow> darea_at (current_pane t) t" using Cons.prems(5) by simp
  from Cons.IH[OF cm(2) Cons.prems(2-4) this]
  have 1: "step_ok (apply_all apply_undo (rev rs)) t cm" .
  have 2: "step_ok (apply_all apply_undo [r]) t1 c"
    if a: "undoblock t1 = None" "mode t1 \<noteq> ALIGN_MODE" "contents t1 = cm"
      "darea_at (current_pane t) t \<longrightarrow> darea_at (current_pane t1) t1" for t1
  proof -
    have "is_mode_rec r \<longrightarrow> darea_at (current_pane t1) t1" using a(4) Cons.prems(5) by simp
    then have "step_ok (apply_undo r) t1 c" using cm(1) a(1-3) by (simp add: inv_rec_def)
    then show ?thesis by (auto simp: step_ok_def split: sum.splits)
  qed
  show ?case unfolding rev.simps apply_all_fun(3)
    by (rule step_ok_seq[OF 1 2])
qed

lemma inv_block_snoc:
  "inv_block (rs @ [r]) c c' \<longleftrightarrow> (\<exists>cm. inv_block rs c cm \<and> inv_rec r cm c')"
  by (induction rs arbitrary: c) (auto simp del: split_paired_Ex)

lemma inv_stack_snoc:
  "inv_stack (bs @ [b]) c c' \<longleftrightarrow> (\<exists>cm. inv_stack bs c cm \<and> inv_block b cm c')"
  by (induction bs arbitrary: c) (auto simp del: split_paired_Ex)

lemma run_prims_recorded:
  "valid_prims ps s \<Longrightarrow> run_prims ps s = Inr s' \<Longrightarrow> undoblock s = Some ub \<Longrightarrow>
   \<exists>b. undoblock s' = Some (ub @ b) \<and> length b = length (filter recording ps) \<and>
       undos s' = undos s \<and> redos s' = redos s \<and> inv_block b (contents s) (contents s') \<and>
       (darea_at (current_pane s) s \<or> list_ex is_mode_rec b \<longrightarrow> darea_at (current_pane s') s')"
proof (induction ps arbitrary: s ub)
  case Nil
  then show ?case by simp
next
  case (Cons p ps)
  from Cons.prems(1,2) obtain s1 where s1: "run_prim p s = Inr s1" "prim_ok p s"
    "valid_prims ps s1" "run_prims ps s1 = Inr s'"
    by (auto split: sum.splits)
  note keep = run_prim_cursor[OF s1(1)]
  show ?case
  proof (cases "recording p")
    case True
    from run_prim_recorded[OF Cons.prems(3) s1(1,2) True]
    obtain r where r: "recorded_as s s1 ub r" ..
    then have r': "undoblock s1 = Some (ub @ [r])" "undos s1 = undos s" "redos s1 = redos s"
      "inv_rec r (contents s) (contents s1)" "is_mode_rec r \<longrightarrow> darea_at (current_pane s1) s1"
      by (simp_all add: recorded_as_def)
    from Cons.IH[OF s1(3,4) r'(1)] obtain b where b: "undoblock s' = Some ((ub @ [r]) @ b)"
      "length b = length (filter recording ps)" "undos s' = undos s1" "redos s' = redos s1"
      "inv_block b (contents s1) (contents s')"
      "darea_at (current_pane s1) s1 \<or> list_ex is_mode_rec b \<longrightarrow> darea_at (current_pane s') s'"
      by blast
    have "inv_block (r # b) (contents s) (contents s')"
      using r'(4) b(5) by (auto simp del: split_paired_Ex)
    moreover have "darea_at (current_pane s) s \<or> list_ex is_mode_rec (r # b) \<longrightarrow>
        darea_at (current_pane s') s'"
      using keep r'(5) b(6) by auto
    ultimately show ?thesis using b(1-4) r'(2,3) True by (intro exI[of _ "r # b"]) simp
  next
    case False
    from run_prim_unrecorded[OF s1(1) False]
    have u: "undoblock s1 = Some ub" "undos s1 = undos s" "redos s1 = redos s"
      "contents s1 = contents s"
      using Cons.prems(3) by simp_all
    from Cons.IH[OF s1(3,4) u(1)] obtain b where b: "undoblock s' = Some (ub @ b)"
      "length b = length (filter recording ps)" "undos s' = undos s1" "redos s' = redos s1"
      "inv_block b (contents s1) (contents s')"
      "darea_at (current_pane s1) s1 \<or> list_ex is_mode_rec b \<longrightarrow> darea_at (current_pane s') s'"
      by blast
    have "darea_at (current_pane s) s \<or> list_ex is_mode_rec b \<longrightarrow> darea_at (current_pane s') s'"
      using keep b(6) by auto
    then show ?thesis using b(1-5) u False by (intro exI[of _ b]) simp
  qed
qed

lemma transaction_recorded:
  assumes "valid_prims ps (openUndoBlock s)" "transaction ps s = Inr s'"
  shows "(darea_at (current_pane s) s \<longrightarrow> darea_at (current_pane s') s') \<and>
         (if list_ex recording ps
          then \<exists>b. undos s' = undos s @ [b] \<and> redos s' = [] \<and>
                 inv_block b (contents s) (contents s') \<and>
                 (list_ex is_mode_rec b \<longrightarrow> darea_at (current_pane s') s')
          else undos s' = undos s \<and> redos s' = redos s \<and> contents s' = contents s)"
proof -
  let ?o = "openUndoBlock s"
  have o: "undoblock ?o = Some []" "undos ?o = undos s" "redos ?o = redos s"
    "contents ?o = contents s" "darea_at (current_pane ?o) ?o = darea_at (current_pane s) s"
    by (simp_all add: openUndoBlock_def contents_def darea_at_def)
  from assms(2) obtain s1 where s1: "run_prims ps ?o = Inr s1" "closeUndoBlock s1 = Inr s'"
    by (auto simp: transaction_def split: sum.splits)
  from run_prims_recorded[OF assms(1) s1(1) o(1)] obtain b where b:
    "undoblock s1 = Some b" "length b = length (filter recording ps)" "undos s1 = undos s"
    "redos s1 = redos s" "inv_block b (contents s) (contents s1)"
    "darea_at (current_pane s) s \<or> list_ex is_mode_rec b \<longrightarrow> darea_at (current_pane s1) s1"
    using o by auto
  have s': "s' = (if length b > 0 then s1\<lparr>redos := [], undos := undos s1 @ [b]\<rparr> else s1)
                 \<lparr>undoblock := None\<rparr>"
    using s1(2) b(1) by (simp add: closeUndoBlock_def)
  have d: "darea_at (current_pane s') s' = darea_at (current_pane s1) s1"
    by (simp add: s' darea_at_def)
  have "b = [] \<longleftrightarrow> filter recording ps = []"
    using b(2) by (metis length_0_conv)
  then have le: "list_ex recording ps \<longleftrightarrow> b \<noteq> []"
    by (simp add: list_ex_iff filter_empty_conv)
  show ?thesis
  proof (cases "list_ex recording ps")
    case True
    then have "b \<noteq> []" using le by simp
    then have e: "undos s' = undos s @ [b]" "redos s' = []" "contents s' = contents s1"
      using s' b(3,4) by (simp_all add: contents_def)
    show ?thesis using True e b(5,6) d by auto
  next
    case False
    then have "b = []" using le by simp
    then have "contents s1 = contents s" using b(5) by simp
    then show ?thesis using False s' \<open>b = []\<close> b(3,4,6) d by (simp add: contents_def)
  qed
qed

lemma run_transactions_recorded:
  "valid_transactions tss s \<Longrightarrow> run_transactions tss s = Inr s' \<Longrightarrow>
   \<exists>bs. undos s' = undos s @ bs \<and> length bs = recorded tss \<and>
        inv_stack bs (contents s) (contents s') \<and>
        (darea_at (current_pane s) s \<or> list_ex (list_ex is_mode_rec) bs \<longrightarrow>
           darea_at (current_pane s') s')"
proof (induction tss arbitrary: s)
  case Nil
  then show ?case by (simp add: recorded_def)
next
  case (Cons ps tss)
  from Cons.prems(1,2) obtain s1 where s1: "valid_prims ps (openUndoBlock s)"
    "transaction ps s = Inr s1" "valid_transactions tss s1" "run_transactions tss s1 = Inr s'"
    by (auto split: sum.splits)
  note t = transaction_recorded[OF s1(1,2)]
  from Cons.IH[OF s1(3,4)] obtain bs where bs: "undos s' = undos s1 @ bs"
    "length bs = recorded tss" "inv_stack bs (contents s1) (contents s')"
    "darea_at (current_pane s1) s1 \<or> list_ex (list_ex is_mode_rec) bs \<longrightarrow>
       darea_at (current_pane s') s'"
    by blast
  show ?case
  proof (cases "list_ex recording ps")
    case False
    then show ?thesis using t bs by (intro exI[of _ bs]) (auto simp: recorded_def)
  next
    case True
    then obtain b where b: "undos s1 = undos s @ [b]" "inv_block b (contents s) (contents s1)"
      "list_ex is_mode_rec b \<longrightarrow> darea_at (current_pane s1) s1"
      using t by auto
    have "inv_stack (b # bs) (contents s) (contents s')"
      using b(2) bs(3) by (auto simp del: split_paired_Ex)
    moreover have "darea_at (current_pane s) s \<or> list_ex (list_ex is_mode_rec) (b # bs) \<longrightarrow>
        darea_at (current_pane s') s'"
      using t b(3) bs(4) by auto
    ultimately show ?thesis using True bs(1,2) b(1)
      by (intro exI[of _ "b # bs"]) (simp add: recorded_def)
  qed
qed

lemma mode_cases: "m \<noteq> ALIGN_MODE \<longleftrightarrow> m = LINE_MODE \<or> m = CHAR_MODE"
  by (cases m) auto

lemma undo_block:
  assumes "inv_block b c c'" "undos t = U @ [b]" "contents t = c'" "mode t \<noteq> ALIGN_MODE"
    "list_ex is_mode_rec b \<longrightarrow> darea_at (current_pane t) t"
  shows "\<exists>t'. undo t = Inr t' \<and> contents t' = c \<and> undos t' = U \<and> redos t' = redos t @ [b] \<and>
              mode t' \<noteq> ALIGN_MODE \<and>
              (darea_at (current_pane t) t \<longrightarrow> darea_at (current_pane t') t')"
proof -
  let ?t0 = "t\<lparr>undoblock := None, undos := U, redos := redos t @ [b]\<rparr>"
  have t0: "undoblock ?t0 = None" "mode ?t0 \<noteq> ALIGN_MODE" "contents ?t0 = c'"
    "list_ex is_mode_rec b \<longrightarrow> darea_at (current_pane ?t0) ?t0"
    using assms(3,4,5) by (simp_all add: contents_def darea_at_def)
  from block_undo[OF assms(1) t0] obtain t1 where t1:
    "apply_all apply_undo (rev b) ?t0 = Inr t1" "contents t1 = c" "closed_frame ?t0 t1"
    "mode t1 \<noteq> ALIGN_MODE"
    "darea_at (current_pane ?t0) ?t0 \<longrightarrow> darea_at (current_pane t1) t1"
    by (auto simp: step_ok_def)
  have m: "mode t = LINE_MODE \<or> mode t = CHAR_MODE" using assms(4) by (simp add: mode_cases)
  have "undo t = Inr (t1\<lparr>undoblock := undoblock t\<rparr>)"
    using m assms(2) t1(1) by (simp add: undo_def undo_suspended_def)
  then show ?thesis using t1(2-5) by (simp add: contents_def closed_frame_def darea_at_def)
qed

lemma redo_block:
  assumes "inv_block b c c'" "redos t = R @ [b]" "contents t = c" "mode t \<noteq> ALIGN_MODE"
    "list_ex is_mode_rec b \<longrightarrow> darea_at (current_pane t) t"
  shows "\<exists>t'. redo t = Inr t' \<and> contents t' = c' \<and> redos t' = R \<and> undos t' = undos t @ [b] \<and>
              mode t' \<noteq> ALIGN_MODE \<and>
              (darea_at (current_pane t) t \<longrightarrow> darea_at (current_pane t') t')"
proof -
  let ?t0 = "t\<lparr>undoblock := None, redos := R, undos := undos t @ [b]\<rparr>"
  have t0: "undoblock ?t0 = None" "mode ?t0 \<noteq> ALIGN_MODE" "contents ?t0 = c"
    "list_ex is_mode_rec b \<longrightarrow> darea_at (current_pane ?t0) ?t0"
    using assms(3,4,5) by (simp_all add: contents_def darea_at_def)
  from block_redo[OF assms(1) t0] obtain t1 where t1:
    "apply_all apply_redo b ?t0 = Inr t1" "contents t1 = c'" "closed_frame ?t0 t1"
    "mode t1 \<noteq> ALIGN_MODE"
    "darea_at (current_pane ?t0) ?t0 \<longrightarrow> darea_at (current_pane t1) t1"
    by (auto simp: step_ok_def)
  have m: "mode t = LINE_MODE \<or> mode t = CHAR_MODE" using assms(4) by (simp add: mode_cases)
  have "redo t = Inr (t1\<lparr>undoblock := undoblock t\<rparr>)"
    using m assms(2) t1(1) by (simp add: redo_def redo_suspended_def)
  then show ?thesis using t1(2-5) by (simp add: contents_def closed_frame_def darea_at_def)
qed

lemma undo_stack:
  "inv_stack bs c c' \<Longrightarrow> undos t = U @ bs \<Longrightarrow> contents t = c' \<Longrightarrow> mode t \<noteq> ALIGN_MODE \<Longrightarrow>
   (list_ex (list_ex is_mode_rec) bs \<longrightarrow> darea_at (current_pane t) t) \<Longrightarrow>
   \<exists>t'. repeat_call undo (length bs) t = Inr t' \<and> contents t' = c \<and> undos t' = U \<and>
        redos t' = redos t @ rev bs \<and> mode t' \<noteq> ALIGN_MODE \<and>
        (darea_at (current_pane t) t \<longrightarrow> darea_at (current_pane t') t')"
proof (induction bs arbitrary: t c' rule: rev_induct)
  case Nil
  then show ?case by simp
next
  case (snoc b bs)
  from snoc.prems(1) obtain cm where cm: "inv_stack bs c cm" "inv_block b cm c'"
    unfolding inv_stack_snoc by blast
  have u: "undos t = (U @ bs) @ [b]" using snoc.prems(2) by simp
  have db: "list_ex is_mode_rec b \<longrightarrow> darea_at (current_pane t) t" using snoc.prems(5) by simp
  from undo_block[OF cm(2) u snoc.prems(3,4) db] obtain t1 where t1: "undo t = Inr t1"
    "contents t1 = cm" "undos t1 = U @ bs" "redos t1 = redos t @ [b]" "mode t1 \<noteq> ALIGN_MODE"
    "darea_at (current_pane t) t \<longrightarrow> darea_at (current_pane t1) t1"
    by blast
  have d1: "list_ex (list_ex is_mode_rec) bs \<longrightarrow> darea_at (current_pane t1) t1"
    using snoc.prems(5) t1(6) by simp
  from snoc.IH[OF cm(1) t1(3,2,5) d1] obtain t' where t': "repeat_call undo (length bs) t1 = Inr t'"
    "contents t' = c" "undos t' = U" "redos t' = redos t1 @ rev bs" "mode t' \<noteq> ALIGN_MODE"
    "darea_at (current_pane t1) t1 \<longrightarrow> darea_at (current_pane t') t'"
    by blast
  show ?case using t1(1,4,6) t' by simp
qed

lemma redo_stack:
  "inv_stack bs c c' \<Longrightarrow> redos t = R @ rev bs \<Longrightarrow> contents t = c \<Longrightarrow> mode t \<noteq> ALIGN_MODE \<Longrightarrow>
   (list_ex (list_ex is_mode_rec) bs \<longrightarrow> darea_at (current_pane t) t) \<Longrightarrow>
   \<exists>t'. repeat_call redo (length bs) t = Inr t' \<and> contents t' = c' \<and> redos t' = R \<and>
        undos t' = undos t @ bs \<and> mode t' \<noteq> ALIGN_MODE"
proof (induction bs arbitrary: t c)
  case Nil
  then show ?case by simp
next
  case (Cons b bs)
  from Cons.prems(1) obtain cm where cm: "inv_block b c cm" "inv_stack bs cm c'"
    by (auto simp del: split_paired_Ex)
  have r: "redos t = (R @ rev bs) @ [b]" using Cons.prems(2) by simp
  have db: "list_ex is_mode_rec b \<longrightarrow> darea_at (current_pane t) t" using Cons.prems(5) by simp
  from redo_block[OF cm(1) r Cons.prems(3,4) db] obtain t1 where t1: "redo t = Inr t1"
    "contents t1 = cm" "redos t1 = R @ rev bs" "undos t1 = undos t @ [b]" "mode t1 \<noteq> ALIGN_MODE"
    "darea_at (current_pane t) t \<longrightarrow> darea_at (current_pane t1) t1"
    by blast
  have d1: "list_ex (list_ex is_mode_rec) bs \<longrightarrow> darea_at (current_pane t1) t1"
    using Cons.prems(5) t1(6) by simp
  from Cons.IH[OF cm(2) t1(3,2,5) d1] obtain t' where t': "repeat_call redo (length bs) t1 = Inr t'"
    "contents t' = c'" "redos t' = R" "undos t' = undos t1 @ bs" "mode t' \<noteq> ALIGN_MODE"
    by blast
  show ?case using t1(1,4) t' by simp
qed

lemma valid_transactions_run:
  "valid_transactions tss s \<Longrightarrow> \<exists>s'. run_transactions tss s = Inr s'"
  by (induction tss arbitrary: s) (auto split: sum.splits)

text \<open>
  Claim C2, as the code has it.  Let every user action run between one
  \<open>openUndoBlock()\<close> and one \<open>closeUndoBlock()\<close>, each primitive mutation used as its
  callers use it (\<open>prim_ok\<close>), with cursor moves and changes of mode in between, and let
  the viewer be in \<open>LINE_MODE\<close> or \<open>CHAR_MODE\<close> when \<open>undo()\<close> is first called.  Then
  calling \<open>undo()\<close> once per transaction that recorded something returns normally and
  restores the exact pane contents (every row's line number, text, modified flag and
  modified text) and the block partition from before the transactions, and calling
  \<open>redo()\<close> as many times restores the state after them.  \<open>undo\<close> applies a
  transaction's records in reverse order of recording and \<open>redo\<close> in the original order
  (the definitions of \<open>undo_suspended\<close> and \<open>redo_suspended\<close>).
\<close>

theorem undo_redo_round_trip:
  assumes "valid_transactions tss s0" "run_transactions tss s0 = Inr s1" "mode s1 \<noteq> ALIGN_MODE"
  shows "\<exists>s2 s3. repeat_call undo (recorded tss) s1 = Inr s2 \<and> contents s2 = contents s0 \<and>
                 repeat_call redo (recorded tss) s2 = Inr s3 \<and> contents s3 = contents s1"
proof -
  from run_transactions_recorded[OF assms(1,2)] obtain bs where bs:
    "undos s1 = undos s0 @ bs" "length bs = recorded tss"
    "inv_stack bs (contents s0) (contents s1)"
    "darea_at (current_pane s0) s0 \<or> list_ex (list_ex is_mode_rec) bs \<longrightarrow>
       darea_at (current_pane s1) s1" by blast
  have d1: "list_ex (list_ex is_mode_rec) bs \<longrightarrow> darea_at (current_pane s1) s1"
    using bs(4) by simp
  from undo_stack[OF bs(3,1) refl assms(3) d1] obtain s2 where s2:
    "repeat_call undo (length bs) s1 = Inr s2" "contents s2 = contents s0"
    "redos s2 = redos s1 @ rev bs" "mode s2 \<noteq> ALIGN_MODE"
    "darea_at (current_pane s1) s1 \<longrightarrow> darea_at (current_pane s2) s2" by blast
  have d2: "list_ex (list_ex is_mode_rec) bs \<longrightarrow> darea_at (current_pane s2) s2"
    using d1 s2(5) by simp
  from redo_stack[OF bs(3) s2(3,2,4) d2] obtain s3 where s3:
    "repeat_call redo (length bs) s2 = Inr s3" "contents s3 = contents s1" by blast
  show ?thesis using s2(1,2) s3 bs(2) by auto
qed

text \<open>
  Two transactions on the example viewer.  The first records the edit mode, enters
  \<open>CHAR_MODE\<close>, edits a line, moves the cursor to column 1 of a line and records the edit
  mode again; the second returns to \<open>LINE_MODE\<close>, inserts two spacers and changes the
  blocks.
\<close>

theorem undo_redo_round_trip_witness:
  "\<exists>s1 s2 s3.
     run_transactions [[RecordEditMode, SetCharMode, UpdateLineText 0 0 True (Some ''x''),
                        SetCurrentChar 0 1, RecordEditMode],
                       [SetLineMode, InsertNull 1 0 False, InsertNull 0 1 False, UpdateBlocks [2]]]
       example_viewer = Inr s1 \<and>
     contents s1 \<noteq> contents example_viewer \<and>
     repeat_call undo 2 s1 = Inr s2 \<and> contents s2 = contents example_viewer \<and>
     repeat_call redo 2 s2 = Inr s3 \<and> contents s3 = contents s1"
proof -
  let ?tss = "[[RecordEditMode, SetCharMode, UpdateLineText 0 0 True (Some ''x''),
                SetCurrentChar 0 1, RecordEditMode],
               [SetLineMode, InsertNull 1 0 False, InsertNull 0 1 False, UpdateBlocks [2]]]"
  have v: "valid_transactions ?tss example_viewer" by code_simp
  from valid_transactions_run[OF v] obtain s1 where s1: "run_transactions ?tss example_viewer = Inr s1" ..
  have r: "recorded ?tss = 2" by (simp add: recorded_def)
  have "blocks example_viewer = [1]" by (simp add: example_viewer_def)
  moreover have "case run_transactions ?tss example_viewer of
      Inl e \<Rightarrow> False | Inr s \<Rightarrow> blocks s = [2] \<and> mode s = LINE_MODE"
    by code_simp
  ultimately have ne: "contents s1 \<noteq> contents example_viewer" and m: "mode s1 \<noteq> ALIGN_MODE"
    using s1 by (auto simp: contents_def)
  from undo_redo_round_trip[OF v s1 m] show ?thesis unfolding r using s1 ne by blast
qed

text \<open>
  The claim as stated, for every sequence of primitive mutations, fails in each of these
  runs on the example viewer; each one drops one of the conditions above.
  \<^enum> The key binding that enters \<open>ALIGN_MODE\<close> is pressed after a recorded edit:
    \<open>undo()\<close> does nothing and the edit stays.
  \<^enum> The edit mode is recorded in \<open>ALIGN_MODE\<close> and the action then calls
    \<open>setLineMode()\<close>, as \<open>merge_lines\<close> does: \<open>undo()\<close> restores the contents and leaves the
    viewer in \<open>ALIGN_MODE\<close>, where \<open>redo()\<close> does nothing.
  \<^enum> \<open>insertNull(0, 0, True)\<close> on a row that holds a line: \<open>undo()\<close> puts a spacer there.
  \<^enum> \<open>insertNull(0, 5, False)\<close> on a pane of one row appends the spacer at row 1:
    \<open>undo()\<close> raises \<open>IndexError\<close> on \<open>del lines[5]\<close>.
  \<^enum> \<open>instanceLine(0, 0, False)\<close> on a row that holds a line: \<open>undo()\<close> leaves a spacer.
  \<^enum> \<open>instanceLine(0, 0, True)\<close> on a line with a text: \<open>undo()\<close> leaves a blank \<open>Line()\<close>.
  \<^enum> \<open>replaceLines\<close> given other lines than the pane's: \<open>undo()\<close> installs those.
  \<^enum> The edit mode is recorded in \<open>CHAR_MODE\<close> with the cursor at column 1 of a spacer:
    \<open>undo()\<close> raises \<open>TypeError\<close> on \<open>None[:1]\<close> and restores nothing.
  \<^enum> The edit mode is recorded with the cursor in no pane: \<open>undo()\<close> raises \<open>IndexError\<close>.
\<close>

theorem undo_redo_round_trip_counterexample:
  "(case run_transactions [[UpdateLineText 0 0 True (Some ''x'')]] example_viewer of
      Inl e \<Rightarrow> False
    | Inr s1 \<Rightarrow>
        valid_transactions [[UpdateLineText 0 0 True (Some ''x'')]] example_viewer \<and>
        recorded [[UpdateLineText 0 0 True (Some ''x'')]] = 1 \<and>
        undo (enter_align_mode s1) = Inr (enter_align_mode s1) \<and>
        contents (enter_align_mode s1) \<noteq> contents example_viewer) \<and>
   (case run_transactions [[RecordEditMode, SetLineMode, UpdateLineText 0 0 True (Some ''x'')]]
           (enter_align_mode example_viewer) of
      Inl e \<Rightarrow> False
    | Inr s1 \<Rightarrow>
        mode s1 = LINE_MODE \<and>
        (case undo s1 of
           Inl e \<Rightarrow> False
         | Inr s2 \<Rightarrow>
             contents s2 = contents example_viewer \<and> mode s2 = ALIGN_MODE \<and>
             redo s2 = Inr s2 \<and> contents s2 \<noteq> contents s1)) \<and>
   (case run_transactions [[InsertNull 0 0 True]] example_viewer of
      Inl e \<Rightarrow> False
    | Inr s1 \<Rightarrow>
        (case undo s1 of
           Inl e \<Rightarrow> False
         | Inr s2 \<Rightarrow> contents s2 \<noteq> contents example_viewer)) \<and>
   (case run_transactions [[InsertNull 0 5 False]] example_viewer of
      Inl e \<Rightarrow> False
    | Inr s1 \<Rightarrow> undo s1 = Inl IndexError) \<and>
   (case run_transactions [[InstanceLine 0 0 False]] example_viewer of
      Inl e \<Rightarrow> False
    | Inr s1 \<Rightarrow>
        (case undo s1 of
           Inl e \<Rightarrow> False
         | Inr s2 \<Rightarrow> contents s2 \<noteq> contents example_viewer)) \<and>
   (case run_transactions [[InstanceLine 0 0 True]] example_viewer of
      Inl e \<Rightarrow> False
    | Inr s1 \<Rightarrow>
        (case undo s1 of
           Inl e \<Rightarrow> False
         | Inr s2 \<Rightarrow> contents s2 \<noteq> contents example_viewer)) \<and>
   (case run_transactions [[ReplaceLines 0 [] [None] 1 1]] example_viewer of
      Inl e \<Rightarrow> False
    | Inr s1 \<Rightarrow>
        (case undo s1 of
           Inl e \<Rightarrow> False
         | Inr s2 \<Rightarrow> contents s2 \<noteq> contents example_viewer)) \<and>
   (case run_transactions [[InsertNull 0 0 False, RecordEditMode]]
           (example_viewer\<lparr>mode := CHAR_MODE, current_pane := 0, current_char := 1\<rparr>) of
      Inl e \<Rightarrow> False
    | Inr s1 \<Rightarrow> mode s1 = CHAR_MODE \<and> undo s1 = Inl TypeError) \<and>
   (case run_transactions [[RecordEditMode]] (example_viewer\<lparr>current_pane := 5\<rparr>) of
      Inl e \<Rightarrow> False
    | Inr s1 \<Rightarrow> mode s1 = LINE_MODE \<and> undo s1 = Inl IndexError)"
  by code_simp

section \<open>The sequence matcher\<close>

subsection \<open>Sequences with no common element\<close>

lemma map_of_dict_set: "map_of (dict_set d k v) = (map_of d)(k \<mapsto> v)"
  by (induction d) auto

lemma unique_values_absent:
  "map_of (unique_values d i xs) s = None \<longleftrightarrow> map_of d s = None \<and> s \<notin> set xs"
  by (induction xs arbitrary: d i) (auto simp: map_of_dict_set)

lemma patience_deal_absent:
  "\<forall>s\<in>set bs. map_of value_a s = None \<Longrightarrow> patience_deal value_a value_b bs st = Inr st"
  by (induction bs) auto

lemma patience_subsequence_disjoint:
  assumes "set a \<inter> set b = {}"
  shows "patience_subsequence a b = Some (Inr [])"
proof -
  have "\<forall>s\<in>set b. map_of (unique_values [] 0 a) s = None"
    using assms by (auto simp: unique_values_absent)
  then show ?thesis
    by (simp add: patience_subsequence_def patience_deal_absent)
qed

lemma count_elements_keys:
  "map_of (count_elements d xs) s = None \<longleftrightarrow> map_of d s = None \<and> s \<notin> set xs"
  by (induction xs arbitrary: d) (auto simp: map_of_dict_set)

lemma dict_set_keys: "fst ` set (dict_set d k v) = insert k (fst ` set d)"
  by (simp add: dom_map_of_conv_image_fst[symmetric] map_of_dict_set)

lemma build_lookup_keys: "fst ` set (build_lookup d i xs) = fst ` set d \<union> set xs"
  by (induction xs arbitrary: d i) (auto simp: dict_set_keys split: option.splits)

lemma lcs_approx_disjoint:
  assumes "set a \<inter> set b = {}"
  shows "lcs_approx a b = Inr None"
proof -
  have "\<not> list_ex (\<lambda>(k, v). map_of (count_elements [] a) k \<noteq> None) (build_lookup [] 0 b)"
  proof
    assume "list_ex (\<lambda>(k, v). map_of (count_elements [] a) k \<noteq> None) (build_lookup [] 0 b)"
    then obtain k v where kv: "(k, v) \<in> set (build_lookup [] 0 b)"
      "map_of (count_elements [] a) k \<noteq> None"
      by (auto simp: list_ex_iff)
    from kv(1) have "k \<in> fst ` set (build_lookup [] 0 b)" by force
    then have "k \<in> set b" by (simp add: build_lookup_keys)
    moreover have "k \<in> set a" using kv(2) by (simp add: count_elements_keys)
    ultimately show False using assms by auto
  qed
  then show ?thesis by (simp add: lcs_approx_def)
qed

lemma py_slice_all: "py_slice xs 0 (int (length xs)) = xs"
  by (simp add: py_slice_def py_index_def)

lemma patience_loop_disjoint:
  assumes "set a \<inter> set b = {}"
  shows "patience_loop a b [(0, int (length a), 0, int (length b), 0)] [] = Some (Inr [])"
proof -
  have e: "patience_loop a b [] [] = Some (Inr [])"
    by (subst patience_loop.simps) simp
  show ?thesis
    by (subst patience_loop.simps)
       (simp add: py_slice_all patience_subsequence_disjoint[OF assms] lcs_approx_disjoint[OF assms] e)
qed

lemma py_get_nth: "i < length xs \<Longrightarrow> py_get xs (int i) = Inr (xs ! i)"
  by (simp add: py_get_def)

lemma patience_finish_disjoint:
  assumes "set a \<inter> set b = {}"
  shows "patience_finish a b [] = Inr [(int (length a), int (length b), 0)]"
proof (cases "a = [] \<or> b = []")
  case True
  then have p: "match_prefix a b (int (length a)) (int (length b)) 0 = Inr 0"
    by (subst match_prefix.simps) auto
  from True have s: "match_suffix a b 0 0 (int (length a)) (int (length b)) =
      Inr (int (length a), int (length b))"
    by (subst match_suffix.simps) auto
  show ?thesis by (simp add: patience_finish_def p s)
next
  case False
  then have ne: "0 < length a" "0 < length b" by auto
  have d0: "a ! 0 \<noteq> b ! 0" using assms ne by (metis disjoint_iff nth_mem)
  have dl: "a ! (length a - 1) \<noteq> b ! (length b - 1)"
    using assms ne by (metis diff_less disjoint_iff nth_mem zero_less_one)
  have p: "match_prefix a b (int (length a)) (int (length b)) 0 = Inr 0"
    using ne d0 py_get_nth[of 0 a] py_get_nth[of 0 b]
    by (subst match_prefix.simps) simp
  have ga: "py_get a (int (length a) - 1) = Inr (a ! (length a - 1))"
    using py_get_nth[of "length a - 1" a] ne by (simp add: of_nat_diff)
  have gb: "py_get b (int (length b) - 1) = Inr (b ! (length b - 1))"
    using py_get_nth[of "length b - 1" b] ne by (simp add: of_nat_diff)
  have s: "match_suffix a b 0 0 (int (length a)) (int (length b)) =
      Inr (int (length a), int (length b))"
    using ne dl ga gb by (subst match_suffix.simps) simp
  show ?thesis by (simp add: patience_finish_def p s)
qed

lemma patience_diff_disjoint:
  assumes "set a \<inter> set b = {}"
  shows "patience_diff a b = Some (Inr [(int (length a), int (length b), 0)])"
  using patience_loop_disjoint[OF assms] patience_finish_disjoint[OF assms]
  by (simp add: patience_diff_def)

subsection \<open>A segment of more than 200 elements with a popular element\<close>

text \<open>
  Two identical sequences of 202 keys, \<open>["x", "", "x"] + [""] * 199\<close>.  No key is unique,
  so the patience pass finds no pivot and \<open>__lcs_approx\<close> runs; the empty key is popular.
  The popular branch stores the length of a match that ends at \<open>bi + 1\<close> under the key
  \<open>bi\<close>, so a run of the popular key keeps its end index while its length grows, and
  the start \<open>bi + 1 - n\<close> of the longest run is negative.
\<close>

lemma patience_diff_popular_eval:
  "patience_diff ([''x'', '''', ''x''] @ replicate 199 '''') ([''x'', '''', ''x''] @ replicate 199 '''') =
     Some (Inr [(1, - 198, 201), (202, 202, 0)])"
  by code_simp

text \<open>
  With a short second sequence the negative index leaves the list:
  \<open>while ai and bi and a[ai - 1] == b[bi - 1]\<close> reads \<open>b[-200]\<close> of a list of three.
\<close>

lemma patience_diff_popular_raises:
  "patience_diff ([''x'', ''x''] @ replicate 199 '''') [''x'', '''', ''''] = Some (Inl IndexError)"
  by code_simp

text \<open>
  Claim C1: for every pair of key sequences the blocks returned by \<open>patience_diff\<close> are
  non-overlapping, increasing, end with the sentinel, and every block \<open>(sa, sb, n)\<close> has
  \<open>a[sa:sa+n] == b[sb:sb+n]\<close>.  For the two identical sequences of 202 keys above the
  first block returned is \<open>(1, -198, 201)\<close>: its start in \<open>b\<close> is negative, and the slice
  \<open>a[1:202]\<close> has 201 elements while \<open>b[-198:3]\<close> is empty.
\<close>

theorem patience_diff_popular_failure:
  "patience_diff ([''x'', '''', ''x''] @ replicate 199 '''') ([''x'', '''', ''x''] @ replicate 199 '''') =
     Some (Inr [(1, - 198, 201), (202, 202, 0)]) \<and>
   py_slice ([''x'', '''', ''x''] @ replicate 199 '''') 1 (1 + 201) \<noteq>
   py_slice ([''x'', '''', ''x''] @ replicate 199 '''') (- 198) (- 198 + 201)"
proof
  show "patience_diff ([''x'', '''', ''x''] @ replicate 199 '''') ([''x'', '''', ''x''] @ replicate 199 '''') =
     Some (Inr [(1, - 198, 201), (202, 202, 0)])"
    by (rule patience_diff_popular_eval)
  show "py_slice ([''x'', '''', ''x''] @ replicate 199 '''') 1 (1 + 201) \<noteq>
        py_slice ([''x'', '''', ''x''] @ replicate 199 '''') (- 198) (- 198 + 201)"
    by (simp add: py_slice_def py_index_def)
qed

section \<open>Aligning two sides\<close>

subsection \<open>The row loop\<close>

lemma grow_createBlock: "grow_block (createBlock (int i)) (int i) = Inr (createBlock (int (Suc i)))"
proof (cases "i = 0")
  case True
  have "find_block [0] 0 0 0 = Inr 0" by (subst find_block.simps) simp
  then show ?thesis using True by (simp add: grow_block_def createBlock_def)
next
  case False
  have "find_block [int i] 0 0 (int i) = Inr 0" by (subst find_block.simps) simp
  then show ?thesis using False by (simp add: grow_block_def createBlock_def)
qed

lemma list_insert_end: "list_insert (length xs) x xs = xs @ [x]"
  by (simp add: list_insert_def)

lemma slice_insert_end: "slice_insert xs (int (length xs)) ys = xs @ ys"
  by (simp add: slice_insert_def py_index_def)

lemma align_matches_sentinel:
  "align_matches [(int (length s1), int (length s2), 0)] 0 0 s1 s2 =
     (s1 @ replicate (length s2 - length s1) None, s2 @ replicate (length s1 - length s2) None)"
proof -
  consider "length s1 < length s2" | "length s1 > length s2" | "length s1 = length s2"
    by linarith
  then show ?thesis
  proof cases
    case 1
    then have "nat (int (length s2) - int (length s1)) = length s2 - length s1" by simp
    then show ?thesis using 1 by (simp add: Let_def slice_insert_end)
  next
    case 2
    then have "nat (int (length s1) - int (length s2)) = length s1 - length s2" by simp
    then show ?thesis using 2 by (simp add: Let_def slice_insert_end)
  next
    case 3
    then show ?thesis by (simp add: Let_def)
  qed
qed

lemma align_rows_paired:
  fixes la lb :: "'l list"
  defines "s1 \<equiv> map Some la @ replicate (length lb - length la) None"
    and "s2 \<equiv> map Some lb @ replicate (length la - length lb) None"
  assumes "i \<le> min (length la) (length lb)" "min (length la) (length lb) \<le> N"
  shows "align_rows s1 s2 N i i (bl, [map Some la], br, [map Some lb]) =
         align_rows s1 s2 N (min (length la) (length lb)) (min (length la) (length lb))
           (bl, [map Some la], br, [map Some lb])"
  using assms(3)
proof (induction "min (length la) (length lb) - i" arbitrary: i)
  case 0
  then show ?case by simp
next
  case (Suc d)
  then have i: "i < length la" "i < length lb" "i < N" using assms(4) by auto
  have N: "row_decision s1 s2 (map Some la) (map Some lb) i i = Inr (False, False, i + 1)"
    using i by (simp add: row_decision_def s1_def s2_def py_get_def nth_append)
  have step: "align_rows s1 s2 N i i (bl, [map Some la], br, [map Some lb]) =
      align_rows s1 s2 N (i + 1) (i + 1) (bl, [map Some la], br, [map Some lb])"
    using i N by (subst align_rows.simps) (simp add: insert_spacers_def)
  have "align_rows s1 s2 N (i + 1) (i + 1) (bl, [map Some la], br, [map Some lb]) =
         align_rows s1 s2 N (min (length la) (length lb)) (min (length la) (length lb))
           (bl, [map Some la], br, [map Some lb])"
    using Suc.hyps(2) i by (intro Suc.hyps(1)) auto
  then show ?case using step by simp
qed

lemma align_rows_pad_left:
  assumes "length L \<le> i" "i \<le> length R"
  shows "align_rows s1 s2 N i k
           (createBlock (int i), [L @ replicate (i - length L) None], br, [R]) =
         Some (Inr (createBlock (int (length R)), [L @ replicate (length R - length L) None], br, [R]))"
  using assms
proof (induction "length R - i" arbitrary: i)
  case 0
  then have "i = length R" by simp
  then show ?case using "0.prems" by (subst align_rows.simps) simp
next
  case (Suc d)
  then have i: "i < length R" by simp
  have len: "length (L @ replicate (i - length L) None) = i" using Suc.prems by simp
  have ins: "insert_spacers True i (createBlock (int i)) [L @ replicate (i - length L) None] =
      Inr (createBlock (int (Suc i)), [L @ replicate (Suc i - length L) None])"
    using Suc.prems(1) len
    by (simp add: insert_spacers_def grow_createBlock list_insert_def Suc_diff_le
        replicate_append_same)
  have "align_rows s1 s2 N i k
           (createBlock (int i), [L @ replicate (i - length L) None], br, [R]) =
        align_rows s1 s2 N (Suc i) k
           (createBlock (int (Suc i)), [L @ replicate (Suc i - length L) None], br, [R])"
    using i len ins by (subst align_rows.simps) (simp add: insert_spacers_def)
  also have "\<dots> = Some (Inr (createBlock (int (length R)),
      [L @ replicate (length R - length L) None], br, [R]))"
    using Suc.hyps(2) Suc.prems i by (intro Suc.hyps(1)) auto
  finally show ?case .
qed

lemma align_rows_pad_right:
  assumes "length R \<le> i" "i \<le> length L"
  shows "align_rows s1 s2 N i k
           (bl, [L], createBlock (int i), [R @ replicate (i - length R) None]) =
         Some (Inr (bl, [L], createBlock (int (length L)), [R @ replicate (length L - length R) None]))"
  using assms
proof (induction "length L - i" arbitrary: i)
  case 0
  then have "i = length L" by simp
  then show ?case using "0.prems" by (subst align_rows.simps) simp
next
  case (Suc d)
  then have i: "i < length L" by simp
  have len: "length (R @ replicate (i - length R) None) = i" using Suc.prems by simp
  have ins: "insert_spacers True i (createBlock (int i)) [R @ replicate (i - length R) None] =
      Inr (createBlock (int (Suc i)), [R @ replicate (Suc i - length R) None])"
    using Suc.prems(1) len
    by (simp add: insert_spacers_def grow_createBlock list_insert_def Suc_diff_le
        replicate_append_same)
  have "align_rows s1 s2 N i k
           (bl, [L], createBlock (int i), [R @ replicate (i - length R) None]) =
        align_rows s1 s2 N (Suc i) k
           (bl, [L], createBlock (int (Suc i)), [R @ replicate (Suc i - length R) None])"
    using i len ins by (subst align_rows.simps) (simp add: insert_spacers_def)
  also have "\<dots> = Some (Inr (bl, [L], createBlock (int (length L)),
      [R @ replicate (length L - length R) None]))"
    using Suc.hyps(2) Suc.prems i by (intro Suc.hyps(1)) auto
  finally show ?case .
qed

lemma alignBlocks_unfold:
  assumes "leftlines \<noteq> []" "rightlines \<noteq> []"
    "filter (\<lambda>x. x \<noteq> None) (last leftlines) = s1"
    "filter (\<lambda>x. x \<noteq> None) (hd rightlines) = s2"
    "patience_diff (map (\<lambda>x. h (the x)) s1) (map (\<lambda>x. h (the x)) s2) = Some (Inr ms)"
    "align_matches ms 0 0 s1 s2 = (s1', s2')"
  shows "alignBlocks h bl leftlines br rightlines =
         align_rows s1' s2' (length s1') 0 0 (bl, leftlines, br, rightlines)"
  using assms by (simp add: alignBlocks_def)

lemma align_rows_accept:
  assumes "i < length L" "i < length R" "i < N"
    "i < length s1" "s1 ! i = L ! i" "i < length s2" "s2 ! i = R ! i"
  shows "align_rows s1 s2 N i i (bl, [L], br, [R]) =
         align_rows s1 s2 N (Suc i) (Suc i) (bl, [L], br, [R])"
proof -
  have "row_decision s1 s2 L R i i = Inr (False, False, i + 1)"
    using assms by (simp add: row_decision_def py_get_def)
  then show ?thesis using assms(1-3)
    by (subst align_rows.simps) (simp add: insert_spacers_def)
qed

lemma align_rows_accept_range:
  assumes "\<forall>i. i0 \<le> i \<and> i < i0 + c \<longrightarrow>
      i < length L \<and> i < length R \<and> i < N \<and> i < length s1 \<and> s1 ! i = L ! i \<and>
      i < length s2 \<and> s2 ! i = R ! i"
  shows "align_rows s1 s2 N i0 i0 (bl, [L], br, [R]) =
         align_rows s1 s2 N (i0 + c) (i0 + c) (bl, [L], br, [R])"
  using assms
proof (induction c arbitrary: i0)
  case 0
  then show ?case by simp
next
  case (Suc c)
  have "align_rows s1 s2 N i0 i0 (bl, [L], br, [R]) =
        align_rows s1 s2 N (Suc i0) (Suc i0) (bl, [L], br, [R])"
    using Suc.prems by (intro align_rows_accept) simp_all
  also have "\<dots> = align_rows s1 s2 N (Suc i0 + c) (Suc i0 + c) (bl, [L], br, [R])"
    using Suc.prems by (intro Suc.IH) simp
  finally show ?case by simp
qed

lemma grow_single: "int i \<le> b \<Longrightarrow> grow_block [b] (int i) = Inr [b + 1]"
proof -
  assume "int i \<le> b"
  then have "find_block [b] 0 0 (int i) = Inr 0" by (subst find_block.simps) simp
  then show ?thesis by (simp add: grow_block_def)
qed

lemma align_rows_spacer_right:
  assumes "i = length P + j" "i < length L" "i < N" "T \<noteq> []" "hd T \<noteq> None"
    "i < length s1" "s1 ! i = L ! i" "i < length s2" "s2 ! i = None" "int i \<le> b"
  shows "align_rows s1 s2 N i i (bl, [L], [b], [P @ replicate j None @ T]) =
         align_rows s1 s2 N (Suc i) (Suc i) (bl, [L], [b + 1], [P @ replicate (Suc j) None @ T])"
proof -
  let ?R = "P @ replicate j None @ T"
  have Ri: "?R ! i = hd T" "i < length ?R"
    using assms(1,4) by (simp_all add: nth_append hd_conv_nth)
  have g: "py_get s1 (int i) = Inr (L ! i)" "py_get s2 (int i) = Inr None"
    using assms(6-9) by (simp_all add: py_get_def)
  have d: "row_decision s1 s2 L ?R i i = Inr (False, True, i + 1)"
    using assms(5) Ri(1) by (simp add: row_decision_def g del: nth_append_length_plus)
  have ins: "insert_spacers True i [b] [?R] = Inr ([b + 1], [P @ replicate (Suc j) None @ T])"
    using assms(1,10) grow_single[of i b]
    by (simp add: insert_spacers_def list_insert_def replicate_append_same)
  show ?thesis using assms(2,3) Ri(2) d ins
    by (subst align_rows.simps) (simp add: insert_spacers_def)
qed

lemma align_rows_spacer_right_range:
  assumes "T \<noteq> []" "hd T \<noteq> None" "int (length P + j + c) \<le> b + 1"
    "\<forall>i. length P + j \<le> i \<and> i < length P + j + c \<longrightarrow>
       i < length L \<and> i < N \<and> i < length s1 \<and> s1 ! i = L ! i \<and> i < length s2 \<and> s2 ! i = None"
  shows "align_rows s1 s2 N (length P + j) (length P + j) (bl, [L], [b], [P @ replicate j None @ T]) =
         align_rows s1 s2 N (length P + j + c) (length P + j + c)
           (bl, [L], [b + int c], [P @ replicate (j + c) None @ T])"
  using assms(3,4)
proof (induction c arbitrary: j b)
  case 0
  then show ?case by simp
next
  case (Suc c)
  have "align_rows s1 s2 N (length P + j) (length P + j) (bl, [L], [b], [P @ replicate j None @ T]) =
      align_rows s1 s2 N (Suc (length P + j)) (Suc (length P + j))
        (bl, [L], [b + 1], [P @ replicate (Suc j) None @ T])"
    using Suc.prems assms(1,2) by (intro align_rows_spacer_right) simp_all
  also have "\<dots> = align_rows s1 s2 N (length P + Suc j + c) (length P + Suc j + c)
           (bl, [L], [b + 1 + int c], [P @ replicate (Suc j + c) None @ T])"
    using Suc.prems Suc.IH[of "Suc j" "b + 1"] by simp
  finally show ?case by (simp add: add.assoc)
qed

subsection \<open>Two panes with no common line\<close>

text \<open>
  Claim C5, as the code has it: two panes without spacers, no line of one having the
  comparison key of a line of the other, each with the partition \<open>createBlock(len)\<close>.
  The matcher returns the sentinel alone, \<open>alignBlocks\<close> pairs the lines row by row and
  pads the shorter pane with spacers at its end: the result has \<open>max(len(a), len(b))\<close>
  rows, and both partitions are one block of that size.
\<close>

theorem alignBlocks_disjoint:
  fixes la lb :: "'l list"
  assumes "h ` set la \<inter> h ` set lb = {}"
  shows "alignBlocks h (createBlock (int (length la))) [map Some la]
           (createBlock (int (length lb))) [map Some lb] =
         Some (Inr (createBlock (int (max (length la) (length lb))),
                    [map Some la @ replicate (length lb - length la) None],
                    createBlock (int (max (length la) (length lb))),
                    [map Some lb @ replicate (length la - length lb) None]))"
proof -
  let ?L = "map Some la" and ?R = "map Some lb"
  let ?s1 = "?L @ replicate (length lb - length la) None"
  let ?s2 = "?R @ replicate (length la - length lb) None"
  let ?n = "min (length la) (length lb)"
  have f: "filter (\<lambda>x. x \<noteq> None) ?L = ?L" "filter (\<lambda>x. x \<noteq> None) ?R = ?R"
    by (simp_all add: filter_map comp_def)
  have t: "map (\<lambda>x. h (the x)) ?L = map h la" "map (\<lambda>x. h (the x)) ?R = map h lb"
    by simp_all
  have d: "patience_diff (map h la) (map h lb) =
      Some (Inr [(int (length la), int (length lb), 0)])"
    using patience_diff_disjoint[of "map h la" "map h lb"] assms by simp
  have am: "align_matches [(int (length la), int (length lb), 0)] 0 0 ?L ?R = (?s1, ?s2)"
    using align_matches_sentinel[of ?L ?R] by simp
  have a: "alignBlocks h (createBlock (int (length la))) [?L] (createBlock (int (length lb))) [?R] =
      align_rows ?s1 ?s2 (length ?s1) 0 0
        (createBlock (int (length la)), [?L], createBlock (int (length lb)), [?R])"
  proof (rule alignBlocks_unfold[where ?s1.0 = ?L and ?s2.0 = ?R])
    show "patience_diff (map (\<lambda>x. h (the x)) ?L) (map (\<lambda>x. h (the x)) ?R) =
        Some (Inr [(int (length la), int (length lb), 0)])"
      unfolding t by (rule d)
    show "align_matches [(int (length la), int (length lb), 0)] 0 0 ?L ?R = (?s1, ?s2)"
      by (rule am)
  qed (simp_all add: f)
  have p: "align_rows ?s1 ?s2 (length ?s1) 0 0
        (createBlock (int (length la)), [?L], createBlock (int (length lb)), [?R]) =
      align_rows ?s1 ?s2 (length ?s1) ?n ?n
        (createBlock (int (length la)), [?L], createBlock (int (length lb)), [?R])"
    by (rule align_rows_paired) simp_all
  show ?thesis
  proof (cases "length la \<le> length lb")
    case True
    then have n: "?n = length la" "max (length la) (length lb) = length lb" by simp_all
    have "align_rows ?s1 ?s2 (length ?s1) (length la) (length la)
        (createBlock (int (length la)), [?L @ replicate (length la - length ?L) None],
         createBlock (int (length lb)), [?R]) =
      Some (Inr (createBlock (int (length ?R)), [?L @ replicate (length ?R - length ?L) None],
         createBlock (int (length lb)), [?R]))"
      using True by (intro align_rows_pad_left) simp_all
    then show ?thesis unfolding a p n using True by simp
  next
    case False
    then have n: "?n = length lb" "max (length la) (length lb) = length la" by simp_all
    have "align_rows ?s1 ?s2 (length ?s1) (length lb) (length lb)
        (createBlock (int (length la)), [?L],
         createBlock (int (length lb)), [?R @ replicate (length lb - length ?R) None]) =
      Some (Inr (createBlock (int (length la)), [?L],
         createBlock (int (length ?L)), [?R @ replicate (length ?L - length ?R) None]))"
      using False by (intro align_rows_pad_right) simp_all
    then show ?thesis unfolding a p n using False by simp
  qed
qed

theorem alignBlocks_disjoint_witness:
  "alignBlocks id [1] [[Some ''a'']] [3] [[Some ''b'', Some ''c'', Some ''d'']] =
     Some (Inr ([3], [[Some ''a'', None, None]], [3], [[Some ''b'', Some ''c'', Some ''d'']]))"
  using alignBlocks_disjoint[of id "[''a'']" "[''b'', ''c'', ''d'']"]
  by (simp add: createBlock_def)

text \<open>
  The claim as stated asks for \<open>len(a) + len(b)\<close> rows, each with a line in exactly one
  pane.  One line \<open>"a"\<close> against one line \<open>"b"\<close> gives one row with a line in both panes.
\<close>

theorem alignBlocks_disjoint_counterexample:
  "alignBlocks id [1] [[Some ''a'']] [1] [[Some ''b'']] =
     Some (Inr ([1], [[Some ''a'']], [1], [[Some ''b'']]))"
  by code_simp

subsection \<open>Two identical panes of 202 lines\<close>

text \<open>
  Claim C4: when \<open>alignBlocks\<close> returns, both sides have equal length and the lines
  matched by the sequence matcher are on identical rows.  For two identical panes of
  202 lines, \<open>["x", "", "x"] + [""] * 199\<close>, each with the partition \<open>[202]\<close>, the
  matcher's block \<open>(1, -198, 201)\<close> puts 199 spacers at \<open>s2[-198:-198]\<close>, that is before
  row 4.  Both sides end with 400 rows: rows 0 to 3 pair a line with its equal, the
  left lines 4 to 201 face spacers, and the right lines 4 to 201 are on rows 202 to 399
  opposite spacers.
\<close>

theorem alignBlocks_popular_failure:
  "alignBlocks id [202] [map Some ([''x'', '''', ''x''] @ replicate 199 '''')]
                  [202] [map Some ([''x'', '''', ''x''] @ replicate 199 '''')] =
     Some (Inr ([400], [map Some ([''x'', '''', ''x''] @ replicate 199 '''') @ replicate 198 None],
                [400], [[Some ''x'', Some '''', Some ''x'', Some ''''] @ replicate 198 None @
                        replicate 198 (Some '''')]))"
proof -
  define P :: "string option list" where "P = [Some ''x'', Some '''', Some ''x'', Some '''']"
  define T :: "string option list" where "T = replicate 198 (Some '''')"
  define L where "L = P @ T"
  have r: "replicate 199 (Some '''') = Some '''' # T"
    unfolding T_def by (simp add: replicate_Suc[symmetric] del: replicate_Suc)
  have L: "map Some ([''x'', '''', ''x''] @ replicate 199 '''') = L"
    by (simp add: L_def P_def r)
  have lens: "length P = 4" "length T = 198" "length L = 202"
    by (simp_all add: L_def P_def T_def)
  have T: "T \<noteq> []" "hd T \<noteq> None" by (simp_all add: T_def)
  have Tn: "\<And>i. i < 198 \<Longrightarrow> T ! i = Some ''''" by (simp add: T_def)
  let ?s1 = "L @ replicate 199 None" and ?s2 = "P @ replicate 199 None @ T"
  have f: "filter (\<lambda>x. x \<noteq> None) L = L"
    by (simp add: L_def P_def T_def)
  have m: "map (\<lambda>x. id (the x)) L = [''x'', '''', ''x''] @ replicate 199 ''''"
    unfolding L[symmetric] by (simp add: comp_def)
  have am: "align_matches [(1, - 198, 201), (202, 202, 0)] 0 0 L L = (?s1, ?s2)"
    by (simp add: slice_insert_def py_index_def lens L_def)
  have u: "alignBlocks id [202] [L] [202] [L] = align_rows ?s1 ?s2 (length ?s1) 0 0 ([202], [L], [202], [L])"
  proof (rule alignBlocks_unfold[where ?s1.0 = L and ?s2.0 = L])
    show "filter (\<lambda>x. x \<noteq> None) (last [L]) = L" using f by simp
    show "filter (\<lambda>x. x \<noteq> None) (hd [L]) = L" using f by simp
    show "patience_diff (map (\<lambda>x. id (the x)) L) (map (\<lambda>x. id (the x)) L) =
          Some (Inr [(1, - 198, 201), (202, 202, 0)])"
      unfolding m by (rule patience_diff_popular_eval)
    show "align_matches [(1, - 198, 201), (202, 202, 0)] 0 0 L L = (?s1, ?s2)" by (rule am)
  qed simp_all
  have N: "length ?s1 = 401" by (simp add: lens)
  have a: "align_rows ?s1 ?s2 401 0 0 ([202], [L], [202], [L]) =
           align_rows ?s1 ?s2 401 (0 + 4) (0 + 4) ([202], [L], [202], [L])"
    by (rule align_rows_accept_range) (simp add: lens nth_append L_def)
  have b: "align_rows ?s1 ?s2 401 (length P + 0) (length P + 0) ([202], [L], [202], [P @ replicate 0 None @ T]) =
           align_rows ?s1 ?s2 401 (length P + 0 + 198) (length P + 0 + 198)
             ([202], [L], [202 + int 198], [P @ replicate (0 + 198) None @ T])"
    using T by (rule align_rows_spacer_right_range) (auto simp: lens nth_append)
  have c: "align_rows ?s1 ?s2 401 202 202
             (createBlock (int 202), [L @ replicate (202 - length L) None], [400], [P @ replicate 198 None @ T]) =
           Some (Inr (createBlock (int (length (P @ replicate 198 None @ T))),
                      [L @ replicate (length (P @ replicate 198 None @ T) - length L) None], [400],
                      [P @ replicate 198 None @ T]))"
    by (rule align_rows_pad_left) (simp_all add: lens)
  have "alignBlocks id [202] [L] [202] [L] =
        Some (Inr ([400], [L @ replicate 198 None], [400], [P @ replicate 198 None @ T]))"
    using a b c by (simp add: u N lens createBlock_def L_def[symmetric])
  then show ?thesis unfolding L by (simp add: P_def T_def)
qed
end
